theory Spec2Isabelle
  imports Complex_Main
begin

section \<open>Errors and strings\<close>

text \<open>
  The API client raises \<open>ApiError\<close> (a message, the response headers and the HTTP
  status), the tests raise plain \<open>Error\<close>s.  An error object is modelled with a
  \<open>message\<close> that may be absent, an optional \<open>status\<close>, and the three ways in which
  the expression \<open>err.headers.get("retry-after")\<close> can go: there is no usable
  \<open>headers\<close> object, the lookup throws, or it returns a value (\<open>None\<close> for \<open>null\<close>
  or \<open>undefined\<close>).  JavaScript numbers are modelled as \<open>int\<close> where they count and
  as \<open>real\<close> where they measure time.
\<close>

datatype header_access = No_headers | Get_throws | Get_returns "string option"

record error =
  message :: "string option"
  status :: "int option"
  headers :: header_access

text \<open>
  A promise can be rejected with any value (the handlers type it \<open>any\<close>).  What
  matters to the code below is whether a property of the value can be read: reading
  \<open>err.message\<close> raises a \<open>TypeError\<close> when \<open>err\<close> is \<open>null\<close> or \<open>undefined\<close>, and
  yields the message, or \<open>undefined\<close>, for every other value.
\<close>

datatype thrown = Nullish | Error_object error

definition type_error :: error where
  "type_error = \<lparr>message = Some ''TypeError'', status = None, headers = No_headers\<rparr>"

definition range_error :: error where
  "range_error = \<lparr>message = Some ''RangeError: Invalid array length'', status = None,
     headers = No_headers\<rparr>"

text \<open>\<open>String.prototype.includes\<close>: the pattern occurs as a contiguous substring.\<close>

fun str_includes :: "string \<Rightarrow> string \<Rightarrow> bool" where
  "str_includes [] p = (p = [])"
| "str_includes (c # cs) p = (take (length p) (c # cs) = p \<or> str_includes cs p)"

text \<open>
  The test \<open>err.message && err.message.includes("429")\<close> that the retry engine and the
  worker pool both use; a missing or empty message is falsy.
\<close>

definition mentions_429 :: "error \<Rightarrow> bool" where
  "mentions_429 err =
     (case message err of None \<Rightarrow> False | Some m \<Rightarrow> m \<noteq> [] \<and> str_includes m ''429'')"

definition is_digit :: "char \<Rightarrow> bool" where
  "is_digit c = (c \<in> set ''0123456789'')"

definition digit_value :: "char \<Rightarrow> nat" where
  "digit_value c = of_char c - 48"

text \<open>\<open>parseInt(s, 10)\<close> on a string of decimal digits.\<close>

definition parseInt :: "string \<Rightarrow> nat" where
  "parseInt s = foldl (\<lambda>n c. 10 * n + digit_value c) 0 s"

section \<open>The retry engine (\<open>src/utils/retry.ts\<close>)\<close>

text \<open>
  \<open>RetryOptions\<close>: every field is optional in the source.  The observer \<open>onRetry\<close>
  only receives values, so the model records whether one was supplied and logs its
  invocations.  A second copy of the file in the repository differs in two default
  values only (\<open>retries = 10\<close>, \<open>minTimeout = 100\<close>).
\<close>

record RetryOptions =
  retries :: "int option"
  factor :: "real option"
  minTimeout :: "real option"
  maxTimeout :: "real option"
  shouldRetry :: "(thrown \<Rightarrow> bool) option"
  jitter :: "bool option"
  onRetry :: bool

definition no_options :: RetryOptions where
  "no_options = \<lparr>retries = None, factor = None, minTimeout = None, maxTimeout = None,
     shouldRetry = None, jitter = None, onRetry = False\<rparr>"

text \<open>The destructuring defaults of \<open>calculateDelay\<close> and \<open>retry\<close>.\<close>

definition the_factor :: "RetryOptions \<Rightarrow> real" where
  "the_factor options = (case factor options of None \<Rightarrow> 2 | Some f \<Rightarrow> f)"

definition the_minTimeout :: "RetryOptions \<Rightarrow> real" where
  "the_minTimeout options = (case minTimeout options of None \<Rightarrow> 1000 | Some m \<Rightarrow> m)"

definition the_maxTimeout :: "RetryOptions \<Rightarrow> real" where
  "the_maxTimeout options = (case maxTimeout options of None \<Rightarrow> 30000 | Some m \<Rightarrow> m)"

definition the_jitter :: "RetryOptions \<Rightarrow> bool" where
  "the_jitter options = (case jitter options of None \<Rightarrow> True | Some j \<Rightarrow> j)"

definition the_retries :: "RetryOptions \<Rightarrow> int" where
  "the_retries options = (case retries options of None \<Rightarrow> 8 | Some r \<Rightarrow> r)"

definition the_shouldRetry :: "RetryOptions \<Rightarrow> thrown \<Rightarrow> bool" where
  "the_shouldRetry options =
     (case shouldRetry options of None \<Rightarrow> (\<lambda>_. True) | Some p \<Rightarrow> p)"

text \<open>
  What the engine takes from the platform: the values of \<open>Math.random()\<close> and of
  \<open>Date.now()\<close> at each attempt, and the timestamp that \<open>new Date(s).getTime()\<close>
  yields for a date string.
\<close>

record platform =
  random :: "nat \<Rightarrow> real"
  now :: "nat \<Rightarrow> real"
  date_parse :: "string \<Rightarrow> real"

text \<open>
  \<open>getDelayFromHeaders\<close>.  The second component of the result tells whether the
  \<open>catch\<close> branch ran and printed its warning.  An all-digit header is a number of
  seconds, anything else is parsed as a date.
\<close>

definition getDelayFromHeaders ::
  "(string \<Rightarrow> real) \<Rightarrow> real \<Rightarrow> error \<Rightarrow> real \<Rightarrow> real \<times> bool" where
  "getDelayFromHeaders parse t err defaultDelay =
     (case headers err of
        No_headers \<Rightarrow> (defaultDelay, False)
      | Get_throws \<Rightarrow> (defaultDelay, True)
      | Get_returns None \<Rightarrow> (defaultDelay, False)
      | Get_returns (Some retryAfter) \<Rightarrow>
          if retryAfter = [] then (defaultDelay, False)
          else if list_all is_digit retryAfter
          then (real (parseInt retryAfter) * 1000, False)
          else (max 0 (parse retryAfter - t), False))"

text \<open>
  \<open>calculateDelay\<close> on an error object, with the random number drawn by
  \<open>Math.random()\<close> as the argument \<open>rnd\<close>.
\<close>

definition calculateDelay ::
  "(string \<Rightarrow> real) \<Rightarrow> real \<Rightarrow> real \<Rightarrow> nat \<Rightarrow> error \<Rightarrow> RetryOptions \<Rightarrow> real \<times> bool" where
  "calculateDelay parse t rnd attempt err options =
     (let factor' = the_factor options;
          minTimeout' = the_minTimeout options;
          maxTimeout' = the_maxTimeout options;
          jitter' = the_jitter options;
          delay0 = minTimeout' * (factor' powi (int attempt - 1));
          delay1 = min delay0 maxTimeout';
          (delay2, warned) =
            (if mentions_429 err
             then (let (rateDelay, w) = getDelayFromHeaders parse t err (delay1 * 2)
                   in (min rateDelay maxTimeout', w))
             else (delay1, False));
          delay3 =
            (if jitter'
             then (let jitterAmount = 0.7 + rnd * 0.6
                   in real_of_int \<lfloor>delay2 * jitterAmount\<rfloor>)
             else delay2)
      in (delay3, warned))"

text \<open>
  \<open>calculateDelay\<close> on any thrown value: the test \<open>err.message && ...\<close> is the first
  use of \<open>err\<close> and raises a \<open>TypeError\<close> on \<open>null\<close> and \<open>undefined\<close>.
\<close>

definition calculateDelay_any ::
  "(string \<Rightarrow> real) \<Rightarrow> real \<Rightarrow> real \<Rightarrow> nat \<Rightarrow> thrown \<Rightarrow> RetryOptions
     \<Rightarrow> thrown + real \<times> bool" where
  "calculateDelay_any parse t rnd attempt err options =
     (case err of
        Nullish \<Rightarrow> Inl (Error_object type_error)
      | Error_object e \<Rightarrow> Inr (calculateDelay parse t rnd attempt e options))"

text \<open>
  The uncapped exponential base delay \<open>minDelay * factor^(attempt-1)\<close> that the
  specification speaks of.
\<close>

definition base_delay :: "RetryOptions \<Rightarrow> nat \<Rightarrow> real" where
  "base_delay options attempt =
     the_minTimeout options * (the_factor options powi (int attempt - 1))"

text \<open>What a run of \<open>retry\<close> does, in order.\<close>

datatype retry_event =
    is_Invoke: Invoke nat
  | is_Log_error: Log_error
  | is_Log_warn: Log_warn
  | is_Header_warn: Header_warn
  | is_Observe: Observe nat real
  | is_Sleep: Sleep real

text \<open>
  The loop of \<open>retry\<close>.  The operation \<open>fn\<close> is given by the outcome of each of its
  invocations, numbered from 0; since the loop returns at the first success, the
  invocation number equals the value of \<open>attempt\<close> before the call.  The result is
  the value returned or the value thrown, with the events of the run.  When the
  retries are used up, the arguments of \<open>console.error\<close> read \<open>err.message\<close> before
  anything is printed or \<open>err\<close> is thrown again; when the error is to be retried,
  \<open>calculateDelay\<close> reads it before anything is printed.
\<close>

function retry_loop ::
  "platform \<Rightarrow> (nat \<Rightarrow> thrown + 'a) \<Rightarrow> RetryOptions \<Rightarrow> nat
     \<Rightarrow> (thrown + 'a) \<times> retry_event list" where
  "retry_loop env fn options attempt =
     (let retries' = the_retries options;
          shouldRetry' = the_shouldRetry options
      in case fn attempt of
           Inr v \<Rightarrow> (Inr v, [Invoke attempt])
         | Inl err \<Rightarrow>
             if int (attempt + 1) > retries' \<or> \<not> shouldRetry' err
             then
               (if int (attempt + 1) > retries'
                then (case err of
                        Nullish \<Rightarrow> (Inl (Error_object type_error), [Invoke attempt])
                      | Error_object e \<Rightarrow> (Inl err, [Invoke attempt, Log_error]))
                else (Inl err, [Invoke attempt]))
             else
               (case calculateDelay_any (date_parse env) (now env (attempt + 1))
                       (random env (attempt + 1)) (attempt + 1) err options of
                  Inl raised \<Rightarrow> (Inl raised, [Invoke attempt])
                | Inr (delay, warned) \<Rightarrow>
                    (let (r, evs) = retry_loop env fn options (attempt + 1)
                     in (r, [Invoke attempt] @ (if warned then [Header_warn] else [])
                            @ [Log_warn]
                            @ (if onRetry options then [Observe (attempt + 1) delay] else [])
                            @ [Sleep delay] @ evs))))"
  by pat_completeness auto
termination
  by (relation "measure (\<lambda>(env, fn, options, attempt).
        nat (the_retries options + 1 - int attempt))")
     auto

definition retry ::
  "platform \<Rightarrow> (nat \<Rightarrow> thrown + 'a) \<Rightarrow> RetryOptions
     \<Rightarrow> (thrown + 'a) \<times> retry_event list" where
  "retry env fn options = retry_loop env fn options 0"

definition invocations :: "retry_event list \<Rightarrow> nat" where
  "invocations evs = length (filter is_Invoke evs)"

definition sleeps :: "retry_event list \<Rightarrow> nat" where
  "sleeps evs = length (filter is_Sleep evs)"

text \<open>
  The delay that is slept after invocation \<open>k\<close> has failed, and the run in which
  the invocations \<open>a, ..., b\<close> follow each other with exactly one sleep between
  two of them and none after the last.
\<close>

definition delay_after :: "platform \<Rightarrow> (nat \<Rightarrow> thrown + 'a) \<Rightarrow> RetryOptions \<Rightarrow> nat \<Rightarrow> real" where
  "delay_after env fn options k =
     (case fn k of
        Inl (Error_object e) \<Rightarrow>
          fst (calculateDelay (date_parse env) (now env (k + 1)) (random env (k + 1))
                 (k + 1) e options)
      | _ \<Rightarrow> 0)"

definition calls_and_sleeps :: "retry_event list \<Rightarrow> retry_event list" where
  "calls_and_sleeps evs = filter (\<lambda>ev. is_Invoke ev \<or> is_Sleep ev) evs"

definition alternating ::
  "platform \<Rightarrow> (nat \<Rightarrow> thrown + 'a) \<Rightarrow> RetryOptions \<Rightarrow> nat \<Rightarrow> nat \<Rightarrow> retry_event list" where
  "alternating env fn options a b =
     concat (map (\<lambda>k. [Invoke k, Sleep (delay_after env fn options k)]) [a..<b])
     @ [Invoke b]"

text \<open>Concrete inputs used in the examples below.\<close>

definition fixed_platform :: platform where
  "fixed_platform = \<lparr>random = (\<lambda>_. 1 / 2), now = (\<lambda>_. 0), date_parse = (\<lambda>_. 0)\<rparr>"



definition always_undefined :: "nat \<Rightarrow> thrown + unit" where
  "always_undefined k = Inl Nullish"

definition error_429_bad_headers :: error where
  "error_429_bad_headers = \<lparr>message = Some ''429 Rate limit exceeded'',
     status = Some 429, headers = Get_throws\<rparr>"

definition test_error :: error where
  "test_error = \<lparr>message = Some ''test error'', status = None, headers = No_headers\<rparr>"

section \<open>The token bucket (\<open>src/utils/concurrency.ts\<close>, class \<open>RateLimiter\<close>)\<close>

text \<open>
  The token count and the refill rate are fractional, so all four fields are reals;
  times are milliseconds.  The constructor takes the current time \<open>Date.now()\<close> as an
  argument.
\<close>

record RateLimiter =
  tokens :: real
  lastRefill :: real
  maxTokens :: real
  refillRate :: real

definition new_RateLimiter :: "real \<Rightarrow> real \<Rightarrow> real \<Rightarrow> RateLimiter" where
  "new_RateLimiter t maxTokens' refillRatePerSecond =
     \<lparr>tokens = maxTokens', lastRefill = t, maxTokens = maxTokens',
      refillRate = refillRatePerSecond / 1000\<rparr>"

definition refill :: "real \<Rightarrow> RateLimiter \<Rightarrow> RateLimiter" where
  "refill t rl =
     (let timePassed = t - lastRefill rl;
          newTokens = timePassed * refillRate rl
      in rl\<lparr>tokens := min (maxTokens rl) (tokens rl + newTokens), lastRefill := t\<rparr>)"

text \<open>
  \<open>getToken\<close> runs in two pieces that other callers can interleave with.  The first
  piece refills and either consumes a token at once or computes the time to wait
  (\<open>None\<close> stands for the infinite wait that a refill rate of zero gives); the second
  piece runs after the sleep and decrements the count without looking at it again.
\<close>

datatype admission = Admitted | Must_wait "int option"

definition getToken_enter :: "real \<Rightarrow> RateLimiter \<Rightarrow> RateLimiter \<times> admission" where
  "getToken_enter t rl =
     (let rl1 = refill t rl
      in if tokens rl1 \<ge> 1
         then (rl1\<lparr>tokens := tokens rl1 - 1\<rparr>, Admitted)
         else (rl1, Must_wait
                 (if refillRate rl1 = 0 then None
                  else Some \<lceil>(1 - tokens rl1) / refillRate rl1\<rceil>)))"

definition getToken_resume :: "RateLimiter \<Rightarrow> RateLimiter" where
  "getToken_resume rl = rl\<lparr>tokens := tokens rl - 1\<rparr>"

definition adjustRateLimit :: "real \<Rightarrow> RateLimiter \<Rightarrow> RateLimiter" where
  "adjustRateLimit decreaseFactor rl = rl\<lparr>refillRate := refillRate rl * decreaseFactor\<rparr>"

text \<open>
  The histories of one limiter under cooperative scheduling: callers enter
  \<open>getToken\<close> at some time, sleeping callers resume, and \<open>adjustRateLimit\<close> is called
  with its default factor.  The clock never runs backwards.
\<close>

datatype limiter_event = Enter real | Resume real | Adjust

record limiter_run =
  limiter :: RateLimiter
  sleepers :: "real list"
  clock :: real

fun remove_due :: "real \<Rightarrow> real list \<Rightarrow> real list option" where
  "remove_due t [] = None"
| "remove_due t (wake # ws) =
     (if wake \<le> t then Some ws else map_option ((#) wake) (remove_due t ws))"

text \<open>
  Modelled from the spec: \<open>sleep\<close> (\<open>src/utils/sleep.ts\<close> is not among the sources)
  suspends its caller for the given number of milliseconds.  A caller that went to
  sleep at time \<open>t\<close> for \<open>waitTime\<close> is therefore due at \<open>t + waitTime\<close> and resumes
  at any later time; a caller with an infinite wait never resumes.  An event that
  cannot happen in the current state yields \<open>None\<close>.
\<close>

definition limiter_step :: "limiter_event \<Rightarrow> limiter_run \<Rightarrow> limiter_run option" where
  "limiter_step ev s =
     (case ev of
        Enter t \<Rightarrow>
          if t < clock s then None
          else (case getToken_enter t (limiter s) of
                  (rl, Admitted) \<Rightarrow> Some (s\<lparr>limiter := rl, clock := t\<rparr>)
                | (rl, Must_wait None) \<Rightarrow> Some (s\<lparr>limiter := rl, clock := t\<rparr>)
                | (rl, Must_wait (Some waitTime)) \<Rightarrow>
                    Some (s\<lparr>limiter := rl, sleepers := sleepers s @ [t + real_of_int waitTime],
                            clock := t\<rparr>))
      | Resume t \<Rightarrow>
          if t < clock s then None
          else (case remove_due t (sleepers s) of
                  None \<Rightarrow> None
                | Some ws \<Rightarrow>
                    Some (s\<lparr>limiter := getToken_resume (limiter s), sleepers := ws, clock := t\<rparr>))
      | Adjust \<Rightarrow> Some (s\<lparr>limiter := adjustRateLimit 0.8 (limiter s)\<rparr>))"

fun limiter_steps :: "limiter_event list \<Rightarrow> limiter_run \<Rightarrow> limiter_run option" where
  "limiter_steps [] s = Some s"
| "limiter_steps (ev # evs) s =
     (case limiter_step ev s of None \<Rightarrow> None | Some s' \<Rightarrow> limiter_steps evs s')"

definition limiter_start :: "real \<Rightarrow> real \<Rightarrow> real \<Rightarrow> limiter_run" where
  "limiter_start t maxTokens' refillRatePerSecond =
     \<lparr>limiter = new_RateLimiter t maxTokens' refillRatePerSecond, sleepers = [], clock = t\<rparr>"

section \<open>The worker pool (\<open>src/utils/concurrency.ts\<close>, \<open>runtWithConcurrencyLimit\<close>)\<close>

text \<open>
  A task is a closure that the pool calls once; what matters to the pool is whether
  the promise it returns is fulfilled or rejected.  \<open>PromiseSettledResult\<close> is the
  tagged union of the two outcomes.
\<close>

datatype 'a task = Resolves 'a | Throws thrown

datatype 'a settled = Fulfilled 'a | Rejected thrown

definition settle :: "'a task \<Rightarrow> 'a settled" where
  "settle task = (case task of Resolves v \<Rightarrow> Fulfilled v | Throws e \<Rightarrow> Rejected e)"

text \<open>
  The assignment \<open>results[current] = v\<close> on a JavaScript array: an index beyond the
  end extends the array and leaves holes (\<open>None\<close>) in between.
\<close>

definition array_set :: "'a option list \<Rightarrow> nat \<Rightarrow> 'a \<Rightarrow> 'a option list" where
  "array_set xs k v =
     (if k < length xs then xs[k := Some v]
      else xs @ replicate (k - length xs) None @ [Some v])"

text \<open>
  Each of the \<open>limit\<close> async runners is, between two of its steps, at one of these
  places: at the loop test, asleep inside \<open>getToken\<close> for the index it claimed,
  holding a token for that index, awaiting the task of that index, returned, or
  ended by an exception that left its \<open>catch\<close> block.
\<close>

datatype runner = At_loop | Sleeping nat | Has_token nat | Running nat | Finished | Crashed

text \<open>
  The state shared by the runners: the \<open>results\<close> array, the variable \<open>i\<close>
  (\<open>cursor\<close>), the rate limiter and the runners themselves.  \<open>started\<close> lists the
  indices of the tasks in the order in which they were called.
\<close>

record 'a pool =
  results :: "'a settled option list"
  cursor :: nat
  rateLimiter :: RateLimiter
  runners :: "runner list"
  started :: "nat list"

definition pool_start :: "real \<Rightarrow> nat \<Rightarrow> 'a pool" where
  "pool_start t limit =
     \<lparr>results = [], cursor = 0,
      rateLimiter = new_RateLimiter t (real limit * 2) (real limit * 0.5),
      runners = replicate limit At_loop, started = []\<rparr>"

text \<open>
  The two arms of \<open>try\<close>/\<open>catch\<close> once the awaited task has settled.  The \<open>catch\<close>
  block first stores the rejected result and then reads \<open>error.message\<close>; for a
  reason of \<open>null\<close> or \<open>undefined\<close> that read raises a \<open>TypeError\<close>, which leaves the
  \<open>catch\<close> block and ends the runner.
\<close>

definition record_outcome :: "nat \<Rightarrow> nat \<Rightarrow> 'a task \<Rightarrow> 'a pool \<Rightarrow> 'a pool" where
  "record_outcome w current task p =
     (case task of
        Resolves v \<Rightarrow>
          p\<lparr>results := array_set (results p) current (Fulfilled v),
            runners := (runners p)[w := At_loop]\<rparr>
      | Throws err \<Rightarrow>
          (case err of
             Nullish \<Rightarrow>
               p\<lparr>results := array_set (results p) current (Rejected err),
                 runners := (runners p)[w := Crashed]\<rparr>
           | Error_object e \<Rightarrow>
               p\<lparr>results := array_set (results p) current (Rejected err),
                 rateLimiter := (if mentions_429 e then adjustRateLimit 0.8 (rateLimiter p)
                                 else rateLimiter p),
                 runners := (runners p)[w := At_loop]\<rparr>))"

text \<open>
  One step of runner \<open>w\<close> at time \<open>t\<close>: from the loop test it claims the next index and
  enters \<open>getToken\<close>, or returns when no index is left; after the sleep it takes its
  token; with a token it calls the task; when the task has settled it records the
  outcome and is back at the loop test.  The steps of different runners interleave
  in any order.  A step of a runner that does not exist, has returned or has ended
  changes nothing.  (An index is claimed only below \<open>tasks.length\<close>; calling a
  missing task would raise a \<open>TypeError\<close> inside the \<open>try\<close>.)
\<close>

definition runner_step :: "'a task list \<Rightarrow> nat \<times> real \<Rightarrow> 'a pool \<Rightarrow> 'a pool" where
  "runner_step tasks wt p =
     (let w = fst wt; t = snd wt in
      if w \<ge> length (runners p) then p
      else
        (case runners p ! w of
           At_loop \<Rightarrow>
             if cursor p < length tasks
             then
               (let current = cursor p;
                    (rl, adm) = getToken_enter t (rateLimiter p)
                in p\<lparr>cursor := current + 1, rateLimiter := rl,
                     runners := (runners p)
                       [w := (case adm of Admitted \<Rightarrow> Has_token current
                              | Must_wait _ \<Rightarrow> Sleeping current)]\<rparr>)
             else p\<lparr>runners := (runners p)[w := Finished]\<rparr>
         | Sleeping current \<Rightarrow>
             p\<lparr>rateLimiter := getToken_resume (rateLimiter p),
               runners := (runners p)[w := Has_token current]\<rparr>
         | Has_token current \<Rightarrow>
             p\<lparr>started := started p @ [current],
               runners := (runners p)[w := Running current]\<rparr>
         | Running current \<Rightarrow>
             record_outcome w current
               (if current < length tasks then tasks ! current
                else Throws (Error_object type_error)) p
         | Finished \<Rightarrow> p
         | Crashed \<Rightarrow> p))"

text \<open>A schedule is the sequence of the runners' steps with their times.\<close>

definition run_pool :: "'a task list \<Rightarrow> (nat \<times> real) list \<Rightarrow> 'a pool \<Rightarrow> 'a pool" where
  "run_pool tasks sched p = foldl (\<lambda>q wt. runner_step tasks wt q) p sched"

definition all_finished :: "'a pool \<Rightarrow> bool" where
  "all_finished p = list_all (\<lambda>r. r = Finished) (runners p)"

text \<open>
  \<open>new Array(limit)\<close> raises a \<open>RangeError\<close> unless the limit is an array length, an
  integer from 0 to \<open>2^32 - 1\<close>.
\<close>

definition array_length :: "int \<Rightarrow> bool" where
  "array_length n = (0 \<le> n \<and> n < 2 ^ 32)"

text \<open>
  \<open>runtWithConcurrencyLimit\<close> under a given schedule.  The call is rejected with the
  \<open>RangeError\<close> when the runners cannot be created.  Otherwise
  \<open>await Promise.all(runners)\<close> raises as soon as one runner has ended by an
  exception, and the call is rejected; it resolves once every runner has
  returned, and the function then returns the \<open>results\<close> array.  \<open>None\<close> means that
  the call has not settled after the schedule.
\<close>

definition runtWithConcurrencyLimit ::
  "real \<Rightarrow> (nat \<times> real) list \<Rightarrow> 'a task list \<Rightarrow> int
     \<Rightarrow> (thrown + 'a settled option list) option" where
  "runtWithConcurrencyLimit t0 sched tasks limit =
     (if \<not> array_length limit then Some (Inl (Error_object range_error))
      else
        (let p = run_pool tasks sched (pool_start t0 (nat limit))
         in if Crashed \<in> set (runners p) then Some (Inl (Error_object type_error))
            else if all_finished p then Some (Inr (results p))
            else None))"

text \<open>
  A runner is active until it has returned or ended.  A schedule is productive when
  each of its steps is taken by an active runner.  \<open>run_to_completion\<close> is the
  scheduler that always lets the first active runner take the next step, for at
  most \<open>n\<close> steps.
\<close>

definition active :: "runner \<Rightarrow> bool" where
  "active r = (r \<noteq> Finished \<and> r \<noteq> Crashed)"


fun first_unfinished :: "runner list \<Rightarrow> nat option" where
  "first_unfinished [] = None"
| "first_unfinished (r # rs) =
     (if active r then Some 0 else map_option Suc (first_unfinished rs))"

fun run_to_completion :: "nat \<Rightarrow> real \<Rightarrow> 'a task list \<Rightarrow> 'a pool \<Rightarrow> (nat \<times> real) list" where
  "run_to_completion 0 t tasks p = []"
| "run_to_completion (Suc n) t tasks p =
     (case first_unfinished (runners p) of
        None \<Rightarrow> []
      | Some w \<Rightarrow> (w, t) # run_to_completion n t tasks (runner_step tasks (w, t) p))"

text \<open>
  The number of steps the runners can still take is bounded by this measure: four
  for every unclaimed index, and for every runner the steps left on its current
  round.
\<close>

fun weight :: "runner \<Rightarrow> nat" where
  "weight Finished = 0"
| "weight Crashed = 0"
| "weight At_loop = 1"
| "weight (Running c) = 2"
| "weight (Has_token c) = 3"
| "weight (Sleeping c) = 4"

definition remaining_steps :: "'a task list \<Rightarrow> 'a pool \<Rightarrow> nat" where
  "remaining_steps tasks p =
     4 * (length tasks - cursor p) + sum_list (map weight (runners p))"

text \<open>The invariant of the pool: every claimed index is either in flight or recorded.\<close>

fun claimed :: "runner \<Rightarrow> nat option" where
  "claimed (Sleeping c) = Some c"
| "claimed (Has_token c) = Some c"
| "claimed (Running c) = Some c"
| "claimed At_loop = None"
| "claimed Finished = None"
| "claimed Crashed = None"

fun not_yet_started :: "runner \<Rightarrow> nat option" where
  "not_yet_started (Sleeping c) = Some c"
| "not_yet_started (Has_token c) = Some c"
| "not_yet_started (Running c) = None"
| "not_yet_started At_loop = None"
| "not_yet_started Finished = None"
| "not_yet_started Crashed = None"

definition pool_inv :: "'a task list \<Rightarrow> 'a pool \<Rightarrow> bool" where
  "pool_inv tasks p \<longleftrightarrow>
     cursor p \<le> length tasks
   \<and> length (results p) \<le> cursor p
   \<and> (\<forall>r \<in> set (runners p). \<forall>c. claimed r = Some c \<longrightarrow> c < cursor p)
   \<and> (\<forall>k < cursor p.
         (\<exists>r \<in> set (runners p). claimed r = Some k)
         \<or> (k < length (results p) \<and> results p ! k = Some (settle (tasks ! k))))
   \<and> (\<forall>k < cursor p.
         (\<exists>r \<in> set (runners p). not_yet_started r = Some k) \<or> k \<in> set (started p))
   \<and> set (started p) \<subseteq> {..<cursor p}
   \<and> (Finished \<in> set (runners p) \<longrightarrow> cursor p = length tasks)"

text \<open>A task list none of whose tasks is rejected with \<open>null\<close> or \<open>undefined\<close>.\<close>

definition no_nullish :: "'a task list \<Rightarrow> bool" where
  "no_nullish tasks = list_all (\<lambda>task. task \<noteq> Throws Nullish) tasks"

text \<open>
  The number of decrements after a forced wait in a history, and the invariant of
  the limiter histories: the count is never lower than minus that number.
\<close>

definition forced_decrements :: "limiter_event list \<Rightarrow> nat" where
  "forced_decrements evs = length (filter (\<lambda>ev. case ev of Resume t \<Rightarrow> True | _ \<Rightarrow> False) evs)"

definition limiter_ok :: "real \<Rightarrow> real \<Rightarrow> limiter_run \<Rightarrow> bool" where
  "limiter_ok cap debt s \<longleftrightarrow>
     maxTokens (limiter s) = cap \<and> 0 \<le> refillRate (limiter s)
     \<and> lastRefill (limiter s) \<le> clock s
     \<and> - debt \<le> tokens (limiter s) \<and> tokens (limiter s) \<le> cap"

section \<open>The orchestrator (\<open>MegaverseBuilder\<close>)\<close>

text \<open>
  The class \<open>MegaverseBuilder\<close> exists in two variants in the repository.  Both keep
  the same private fields; the second variant calls the error counter \<open>error429\<close>
  instead of \<open>error429Count\<close> and initialises \<open>maxConcurrency\<close> with 8 instead of 10.
  The fields \<open>maxConcurrency\<close>, \<open>batchSize\<close> and \<open>batchDelayMs\<close> are \<open>readonly\<close>: no
  operation below changes them.
\<close>

record MegaverseBuilder =
  concurrency :: int
  maxConcurrency :: int
  error429Count :: int
  batchSize :: nat
  batchDelayMs :: nat

text \<open>The field initialisers of the first and of the second variant.\<close>

definition new_MegaverseBuilder :: MegaverseBuilder where
  "new_MegaverseBuilder =
     \<lparr>concurrency = 3, maxConcurrency = 10, error429Count = 0,
      batchSize = 20, batchDelayMs = 3000\<rparr>"

definition new_MegaverseBuilder2 :: MegaverseBuilder where
  "new_MegaverseBuilder2 =
     \<lparr>concurrency = 3, maxConcurrency = 8, error429Count = 0,
      batchSize = 20, batchDelayMs = 3000\<rparr>"

text \<open>
  \<open>record429\<close>: what the retry predicate of \<open>makeRetryOpts\<close> does to the builder
  whenever it sees a 429 (the second variant increments the counter in place).
\<close>

definition record429 :: "MegaverseBuilder \<Rightarrow> MegaverseBuilder" where
  "record429 b = b\<lparr>error429Count := error429Count b + 1\<rparr>"

text \<open>
  \<open>adjustConcurrency\<close>, first variant: the reduction is computed first and then
  subtracted under \<open>Math.max(1, _)\<close>; the counter is cleared after the log line.
\<close>

definition adjustConcurrency :: "MegaverseBuilder \<Rightarrow> MegaverseBuilder" where
  "adjustConcurrency b =
     (let b1 =
        (if error429Count b = 0
         then b\<lparr>concurrency := min (concurrency b + 1) (maxConcurrency b)\<rparr>
         else
           (let reduction = min (error429Count b) (concurrency b - 1)
            in b\<lparr>concurrency := max 1 (concurrency b - reduction)\<rparr>))
      in b1\<lparr>error429Count := 0\<rparr>)"

text \<open>
  \<open>adjustConcurrency\<close>, second variant: the test is \<open>!this.error429\<close>, which for a
  number is true exactly at zero, and the whole counter is subtracted.
\<close>

definition adjustConcurrency2 :: "MegaverseBuilder \<Rightarrow> MegaverseBuilder" where
  "adjustConcurrency2 b =
     (let b1 =
        (if \<not> (error429Count b \<noteq> 0)
         then b\<lparr>concurrency := min (concurrency b + 1) (maxConcurrency b)\<rparr>
         else b\<lparr>concurrency := max 1 (concurrency b - error429Count b)\<rparr>)
      in b1\<lparr>error429Count := 0\<rparr>)"

section \<open>The batch scheduler (\<open>MegaverseBuilder.processBatches\<close>)\<close>

text \<open>
  While \<open>processBatches\<close> awaits the pool or the pause between two batches, two
  things can change the builder: the interval timer fires (\<open>Tick\<close>, a call of
  \<open>adjustConcurrency\<close>), and a retry predicate sees a 429 (\<open>Hit\<close>).  The
  surroundings of a run give, for the batch with a given number, the time at which
  its pool starts, the interleaving of the pool's runners, and the builder events
  during the batch and during the pause after it.
\<close>

datatype builder_event = Tick | Hit

record 'a surroundings =
  start_time :: "nat \<Rightarrow> real"
  interleaving :: "'a task list \<Rightarrow> 'a pool \<Rightarrow> (nat \<times> real) list"
  during_batch :: "nat \<Rightarrow> builder_event list"
  during_pause :: "nat \<Rightarrow> builder_event list"

fun builder_events ::
  "(MegaverseBuilder \<Rightarrow> MegaverseBuilder) \<Rightarrow> builder_event list \<Rightarrow> MegaverseBuilder \<Rightarrow> MegaverseBuilder" where
  "builder_events adjust [] b = b"
| "builder_events adjust (Tick # evs) b = builder_events adjust evs (adjust b)"
| "builder_events adjust (Hit # evs) b = builder_events adjust evs (record429 b)"

text \<open>
  What a run of \<open>processBatches\<close> leaves behind: the collected results, the builder,
  the calls of the pool (length of the batch and the limit passed) and the number
  of pauses.
\<close>

record 'a batch_run =
  collected :: "'a settled option list"
  builder :: MegaverseBuilder
  pool_calls :: "(nat \<times> int) list"
  pauses :: nat

definition calls_and_level :: "'a batch_run \<Rightarrow> (nat \<times> int) list \<times> int" where
  "calls_and_level run = (pool_calls run, concurrency (builder run))"

text \<open>\<open>await runtWithConcurrencyLimit(batch, limit)\<close> for the batch with number \<open>i\<close>.\<close>

definition await_pool ::
  "'a surroundings \<Rightarrow> nat \<Rightarrow> 'a task list \<Rightarrow> int
     \<Rightarrow> (thrown + 'a settled option list) option" where
  "await_pool env i batch limit =
     runtWithConcurrencyLimit (start_time env i)
       (interleaving env batch (pool_start (start_time env i) (nat limit))) batch limit"

text \<open>
  The first variant cuts all batches in advance:
  \<open>for (i = 0; i < allTasks.length; i += batchSize) batches.push(allTasks.slice(i, i + batchSize))\<close>.
\<close>

function chunks :: "nat \<Rightarrow> 'a list \<Rightarrow> 'a list list" where
  "chunks n xs = (if n = 0 \<or> xs = [] then [] else take n xs # chunks n (drop n xs))"
  by pat_completeness auto
termination
  by (relation "measure (\<lambda>(n, xs). length xs)") auto

text \<open>
  The count \<open>failedWith429\<close> of the first variant.  \<open>filter\<close> skips holes; the
  predicate reads \<open>reason.message.includes\<close>, which raises a \<open>TypeError\<close> on a reason
  that is \<open>null\<close> or \<open>undefined\<close> and on a reason without a message.
\<close>

fun failedWith429 :: "'a settled option list \<Rightarrow> thrown + nat" where
  "failedWith429 [] = Inr 0"
| "failedWith429 (None # rs) = failedWith429 rs"
| "failedWith429 (Some (Fulfilled v) # rs) = failedWith429 rs"
| "failedWith429 (Some (Rejected Nullish) # rs) = Inl (Error_object type_error)"
| "failedWith429 (Some (Rejected (Error_object reason)) # rs) =
     (case message reason of
        None \<Rightarrow> Inl (Error_object type_error)
      | Some m \<Rightarrow>
          (case failedWith429 rs of
             Inl e \<Rightarrow> Inl e
           | Inr n \<Rightarrow> Inr (if str_includes m ''429'' then n + 1 else n)))"

text \<open>
  The count \<open>rateErrors\<close> of the second variant: \<open>/429/.test(x.reason?.message)\<close> is
  false on a reason that is \<open>null\<close> or \<open>undefined\<close> and on a reason without a message.
\<close>

fun rateErrors :: "'a settled option list \<Rightarrow> nat" where
  "rateErrors [] = 0"
| "rateErrors (None # rs) = rateErrors rs"
| "rateErrors (Some (Fulfilled v) # rs) = rateErrors rs"
| "rateErrors (Some (Rejected Nullish) # rs) = rateErrors rs"
| "rateErrors (Some (Rejected (Error_object reason)) # rs) =
     (case message reason of
        None \<Rightarrow> rateErrors rs
      | Some m \<Rightarrow> (if str_includes m ''429'' then rateErrors rs + 1 else rateErrors rs))"

text \<open>
  \<open>processBatches(allTasks, concurrency)\<close>, first variant.  The limit handed to the
  pool is the parameter \<open>concurrency\<close>, which the callers bind to \<open>this.concurrency\<close>
  at the time of the call.  The result is \<open>None\<close> while a pool has not settled, and
  the value thrown when the pool call is rejected or the count of the 429 failures
  raises.
\<close>

fun processBatches_loop ::
  "'a surroundings \<Rightarrow> nat \<Rightarrow> 'a task list list \<Rightarrow> int \<Rightarrow> 'a batch_run
     \<Rightarrow> (thrown + 'a batch_run) option" where
  "processBatches_loop env i [] concurrency' run = Some (Inr run)"
| "processBatches_loop env i (batchTasks # rest) concurrency' run =
     (case await_pool env i batchTasks concurrency' of
        None \<Rightarrow> None
      | Some (Inl raised) \<Rightarrow> Some (Inl raised)
      | Some (Inr batchResults) \<Rightarrow>
          (let b1 = builder_events adjustConcurrency (during_batch env i) (builder run);
               run1 = run\<lparr>collected := collected run @ batchResults,
                          pool_calls := pool_calls run @ [(length batchTasks, concurrency')]\<rparr>
           in case failedWith429 batchResults of
                Inl e \<Rightarrow> Some (Inl e)
              | Inr failed \<Rightarrow>
                  (let b2 = (if failed > 0
                             then adjustConcurrency
                                    (b1\<lparr>error429Count := error429Count b1 + int failed\<rparr>)
                             else b1)
                   in if rest \<noteq> []
                      then processBatches_loop env (i + 1) rest concurrency'
                             (run1\<lparr>builder := builder_events adjustConcurrency (during_pause env i) b2,
                                   pauses := pauses run1 + 1\<rparr>)
                      else processBatches_loop env (i + 1) rest concurrency'
                             (run1\<lparr>builder := b2\<rparr>))))"

text \<open>With a batch size of zero the loop that cuts the batches would never end.\<close>

definition processBatches ::
  "'a surroundings \<Rightarrow> 'a task list \<Rightarrow> int \<Rightarrow> MegaverseBuilder
     \<Rightarrow> (thrown + 'a batch_run) option" where
  "processBatches env allTasks concurrency' b =
     (if batchSize b = 0 \<and> allTasks \<noteq> [] then None
      else processBatches_loop env 0 (chunks (batchSize b) allTasks) concurrency'
             \<lparr>collected = [], builder = b, pool_calls = [], pauses = 0\<rparr>)"

text \<open>
  \<open>processBatches(tasks)\<close>, second variant: one loop that slices the next batch and
  reads \<open>this.concurrency\<close> when it calls the pool; \<open>remaining\<close> is
  \<open>tasks.slice(i)\<close>.
\<close>

function processBatches2_loop ::
  "'a surroundings \<Rightarrow> nat \<Rightarrow> nat \<Rightarrow> 'a task list \<Rightarrow> 'a batch_run
     \<Rightarrow> (thrown + 'a batch_run) option" where
  "processBatches2_loop env n i remaining run =
     (if n = 0 \<or> remaining = [] then Some (Inr run)
      else
        (let batch = take n remaining;
             limit = concurrency (builder run)
         in case await_pool env i batch limit of
              None \<Rightarrow> None
            | Some (Inl raised) \<Rightarrow> Some (Inl raised)
            | Some (Inr r) \<Rightarrow>
                (let b1 = builder_events adjustConcurrency2 (during_batch env i) (builder run);
                     run1 = run\<lparr>collected := collected run @ r,
                                pool_calls := pool_calls run @ [(length batch, limit)]\<rparr>;
                     b2 = (if rateErrors r \<noteq> 0
                           then adjustConcurrency2
                                  (b1\<lparr>error429Count := error429Count b1 + int (rateErrors r)\<rparr>)
                           else b1)
                 in if drop n remaining \<noteq> []
                    then processBatches2_loop env n (i + 1) (drop n remaining)
                           (run1\<lparr>builder := builder_events adjustConcurrency2 (during_pause env i) b2,
                                 pauses := pauses run1 + 1\<rparr>)
                    else processBatches2_loop env n (i + 1) (drop n remaining)
                           (run1\<lparr>builder := b2\<rparr>))))"
  by pat_completeness auto
termination
  by (relation "measure (\<lambda>(env, n, i, remaining, run). length remaining)") auto

definition processBatches2 ::
  "'a surroundings \<Rightarrow> 'a task list \<Rightarrow> MegaverseBuilder \<Rightarrow> (thrown + 'a batch_run) option" where
  "processBatches2 env tasks b =
     (if batchSize b = 0 \<and> tasks \<noteq> [] then None
      else processBatches2_loop env (batchSize b) 0 tasks
             \<lparr>collected = [], builder = b, pool_calls = [], pauses = 0\<rparr>)"

text \<open>
  Concrete surroundings and a concrete task list for the example below: nothing
  happens to the builder from outside, the runners are scheduled by
  \<open>run_to_completion\<close>, and of the 21 tasks the first is rejected with a 429.
\<close>

definition oldest_first :: "'a task list \<Rightarrow> 'a pool \<Rightarrow> (nat \<times> real) list" where
  "oldest_first tasks p = run_to_completion (remaining_steps tasks p) 0 tasks p"

definition quiet :: "'a surroundings" where
  "quiet = \<lparr>start_time = (\<lambda>_. 0), interleaving = oldest_first,
     during_batch = (\<lambda>_. []), during_pause = (\<lambda>_. [])\<rparr>"

definition error_429 :: error where
  "error_429 = \<lparr>message = Some ''createPolyanet failed (429): Too Many Requests'',
     status = Some 429, headers = No_headers\<rparr>"

definition one_throttled :: "unit task list" where
  "one_throttled = Throws (Error_object error_429) # replicate 20 (Resolves ())"

section \<open>General facts\<close>

declare retry_loop.simps [simp del]

declare chunks.simps [simp del]

declare processBatches2_loop.simps [simp del]

section \<open>Properties of the concurrency controller\<close>

text \<open>
  Claim C2.  In every state, one \<open>adjustConcurrency\<close> step with an error count of zero
  sets the concurrency to one more than before, capped at \<open>maxConcurrency\<close>; a step
  with an error count \<open>k \<ge> 1\<close> lowers it by \<open>min k (concurrency - 1)\<close> and leaves it
  at least 1; either way the error counter is 0 afterwards.  This holds for both
  variants of the builder.
\<close>

theorem adjustConcurrency_step:
  fixes b :: MegaverseBuilder
  shows
    "(error429Count b = 0 \<longrightarrow>
        concurrency (adjustConcurrency b) = min (concurrency b + 1) (maxConcurrency b) \<and>
        concurrency (adjustConcurrency2 b) = min (concurrency b + 1) (maxConcurrency b))
     \<and> (1 \<le> error429Count b \<longrightarrow>
        concurrency (adjustConcurrency b) =
          concurrency b - min (error429Count b) (concurrency b - 1) \<and>
        concurrency (adjustConcurrency2 b) =
          concurrency b - min (error429Count b) (concurrency b - 1) \<and>
        1 \<le> concurrency (adjustConcurrency b) \<and>
        1 \<le> concurrency (adjustConcurrency2 b))
     \<and> error429Count (adjustConcurrency b) = 0
     \<and> error429Count (adjustConcurrency2 b) = 0"
proof (intro conjI impI)
  assume quiet_period: "error429Count b = 0"
  then show "concurrency (adjustConcurrency b) = min (concurrency b + 1) (maxConcurrency b)"
    by (simp add: adjustConcurrency_def)
  from quiet_period
  show "concurrency (adjustConcurrency2 b) = min (concurrency b + 1) (maxConcurrency b)"
    by (simp add: adjustConcurrency2_def)
next
  assume throttled: "1 \<le> error429Count b"
  let ?c = "concurrency b" and ?k = "error429Count b"
  have floor: "max 1 (?c - min ?k (?c - 1)) = ?c - min ?k (?c - 1)"
    and whole: "max 1 (?c - ?k) = ?c - min ?k (?c - 1)"
    by (simp_all add: min_def max_def)
  from throttled
  show first: "concurrency (adjustConcurrency b) = ?c - min ?k (?c - 1)"
    using floor by (simp add: adjustConcurrency_def Let_def)
  from throttled
  show second: "concurrency (adjustConcurrency2 b) = ?c - min ?k (?c - 1)"
    using whole by (simp add: adjustConcurrency2_def)
  show "1 \<le> concurrency (adjustConcurrency b)"
    unfolding first by (simp add: min_def)
  show "1 \<le> concurrency (adjustConcurrency2 b)"
    unfolding second by (simp add: min_def)
next
  show "error429Count (adjustConcurrency b) = 0"
    by (simp add: adjustConcurrency_def Let_def)
  show "error429Count (adjustConcurrency2 b) = 0"
    by (simp add: adjustConcurrency2_def)
qed

theorem adjustConcurrency_step_witness:
  "concurrency (adjustConcurrency new_MegaverseBuilder) = 4
   \<and> concurrency (adjustConcurrency (new_MegaverseBuilder\<lparr>concurrency := 10\<rparr>)) = 10
   \<and> concurrency (adjustConcurrency2 (new_MegaverseBuilder2\<lparr>concurrency := 8\<rparr>)) = 8
   \<and> concurrency (adjustConcurrency (new_MegaverseBuilder\<lparr>error429Count := 5\<rparr>)) = 1
   \<and> concurrency (adjustConcurrency2 (new_MegaverseBuilder2\<lparr>error429Count := 1\<rparr>)) = 2
   \<and> error429Count (adjustConcurrency (new_MegaverseBuilder\<lparr>error429Count := 5\<rparr>)) = 0"
  using adjustConcurrency_step [of new_MegaverseBuilder]
    adjustConcurrency_step [of "new_MegaverseBuilder\<lparr>concurrency := 10\<rparr>"]
    adjustConcurrency_step [of "new_MegaverseBuilder2\<lparr>concurrency := 8\<rparr>"]
    adjustConcurrency_step [of "new_MegaverseBuilder\<lparr>error429Count := 5\<rparr>"]
    adjustConcurrency_step [of "new_MegaverseBuilder2\<lparr>error429Count := 1\<rparr>"]
  by (simp add: new_MegaverseBuilder_def new_MegaverseBuilder2_def)

text \<open>
  Claim C9.  For a concurrency \<open>c \<ge> 1\<close> and an error count \<open>k \<ge> 1\<close>, the decrease
  rule of the first variant, \<open>max 1 (c - min k (c - 1))\<close>, and the decrease rule of
  the second variant, \<open>max 1 (c - k)\<close>, give the same new concurrency level.
\<close>

theorem adjustConcurrency_variants_agree:
  assumes "1 \<le> concurrency b" and "1 \<le> error429Count b"
  shows "concurrency (adjustConcurrency b) =
           max 1 (concurrency b - min (error429Count b) (concurrency b - 1))
         \<and> concurrency (adjustConcurrency2 b) = max 1 (concurrency b - error429Count b)
         \<and> concurrency (adjustConcurrency b) = concurrency (adjustConcurrency2 b)"
  using assms
  by (simp add: adjustConcurrency_def adjustConcurrency2_def Let_def min_def max_def)

theorem adjustConcurrency_variants_agree_witness:
  "concurrency (adjustConcurrency (new_MegaverseBuilder\<lparr>error429Count := 7\<rparr>)) = 1
   \<and> concurrency (adjustConcurrency2 (new_MegaverseBuilder\<lparr>error429Count := 7\<rparr>)) = 1"
  using adjustConcurrency_variants_agree [of "new_MegaverseBuilder\<lparr>error429Count := 7\<rparr>"]
  by (simp add: new_MegaverseBuilder_def)

text \<open>The concurrency of a builder never drops below 1.\<close>

lemma adjustConcurrency_keeps_positive:
  assumes "1 \<le> concurrency b" and "1 \<le> maxConcurrency b"
  shows "1 \<le> concurrency (adjustConcurrency b) \<and> 1 \<le> concurrency (adjustConcurrency2 b)"
  using assms by (simp add: adjustConcurrency_def adjustConcurrency2_def Let_def min_def max_def)

section \<open>Properties of the retry engine\<close>

text \<open>
  An operation that fails on every invocation with an error object that the
  predicate accepts is invoked once more than \<open>retries\<close> allows retries, with one
  sleep per retry, and the error of the last invocation is what \<open>retry\<close> throws.
\<close>

lemma retry_loop_all_fail:
  fixes fn :: "nat \<Rightarrow> thrown + 'a"
  assumes "\<forall>k. \<exists>e. fn k = Inl (Error_object e) \<and> the_shouldRetry options (Error_object e)"
    and "int attempt \<le> the_retries options"
  shows "fst (retry_loop env fn options attempt) = fn (nat (the_retries options))
       \<and> invocations (snd (retry_loop env fn options attempt)) = nat (the_retries options) + 1 - attempt
       \<and> sleeps (snd (retry_loop env fn options attempt)) = nat (the_retries options) - attempt"
  using assms
proof (induction "nat (the_retries options) - attempt" arbitrary: attempt)
  case 0
  then have a: "int attempt = the_retries options" by linarith
  from 0(2) obtain e where e: "fn attempt = Inl (Error_object e)" by blast
  have n: "nat (the_retries options) = attempt" using a by simp
  show ?case
    by (subst (1 2 3) retry_loop.simps) (simp add: e a [symmetric] invocations_def sleeps_def n Let_def)
next
  case (Suc n)
  from Suc(3) obtain e where e: "fn attempt = Inl (Error_object e)"
    "the_shouldRetry options (Error_object e)" by blast
  have lt: "int (attempt + 1) \<le> the_retries options" using Suc(2) by linarith
  have n: "n = nat (the_retries options) - (attempt + 1)" using Suc(2) by linarith
  note IH = Suc(1) [OF n Suc(3) lt]
  have gt: "\<not> the_retries options < int (attempt + 1)" using lt by linarith
  show ?case
    apply (subst (1 2 3) retry_loop.simps)
    using IH gt e Suc(2)
    apply (simp add: Let_def invocations_def sleeps_def case_prod_beta calculateDelay_any_def)
    apply linarith
    done
qed

text \<open>
  In such a run the invocations and the sleeps alternate: every failed invocation
  but the last is followed by exactly one sleep, and the last by none.
\<close>

lemma retry_loop_alternates:
  fixes fn :: "nat \<Rightarrow> thrown + 'a"
  assumes "\<forall>k. \<exists>e. fn k = Inl (Error_object e) \<and> the_shouldRetry options (Error_object e)"
    and "int attempt \<le> the_retries options"
  shows "calls_and_sleeps (snd (retry_loop env fn options attempt)) =
           alternating env fn options attempt (nat (the_retries options))"
  using assms
proof (induction "nat (the_retries options) - attempt" arbitrary: attempt)
  case 0
  then have a: "int attempt = the_retries options" by linarith
  from 0(2) obtain e where e: "fn attempt = Inl (Error_object e)" by blast
  have n: "nat (the_retries options) = attempt" using a by simp
  show ?case
    by (subst retry_loop.simps)
      (simp add: e a [symmetric] calls_and_sleeps_def alternating_def n Let_def)
next
  case (Suc n)
  from Suc(3) obtain e where e: "fn attempt = Inl (Error_object e)"
    "the_shouldRetry options (Error_object e)" by blast
  have lt: "int (attempt + 1) \<le> the_retries options" using Suc(2) by linarith
  have n: "n = nat (the_retries options) - (attempt + 1)" using Suc(2) by linarith
  note IH = Suc(1) [OF n Suc(3) lt]
  have gt: "\<not> the_retries options < int (attempt + 1)" using lt by linarith
  have less: "attempt < nat (the_retries options)" using lt by linarith
  have unfold: "alternating env fn options attempt (nat (the_retries options)) =
      [Invoke attempt, Sleep (delay_after env fn options attempt)]
      @ alternating env fn options (attempt + 1) (nat (the_retries options))"
    using less by (simp add: alternating_def upt_conv_Cons)
  have d: "delay_after env fn options attempt =
      fst (calculateDelay (date_parse env) (now env (attempt + 1)) (random env (attempt + 1))
             (attempt + 1) e options)"
    using e by (simp add: delay_after_def)
  show ?case
    unfolding unfold d
    apply (subst retry_loop.simps)
    using IH gt e
    apply (simp add: Let_def calls_and_sleeps_def case_prod_beta calculateDelay_any_def)
    done
qed

text \<open>
  With \<open>retries: 2\<close> and an operation that fails on every invocation with an error
  object that the predicate accepts, there are exactly 3 invocations and 2 sleeps,
  in the order call, sleep, call, sleep, call, and the error of the third
  invocation is thrown.
\<close>

lemma retry_two_retries_error_objects:
  fixes fn :: "nat \<Rightarrow> thrown + 'a"
  assumes fails: "\<forall>k. \<exists>e. fn k = Inl (Error_object e) \<and> the_shouldRetry options (Error_object e)"
    and two: "retries options = Some 2"
  shows "fst (retry env fn options) = fn 2
       \<and> invocations (snd (retry env fn options)) = 3
       \<and> sleeps (snd (retry env fn options)) = 2
       \<and> calls_and_sleeps (snd (retry env fn options)) =
           [Invoke 0, Sleep (delay_after env fn options 0),
            Invoke 1, Sleep (delay_after env fn options 1), Invoke 2]"
proof -
  have r: "the_retries options = 2" using two by (simp add: the_retries_def)
  have u: "[0..<2] = [0, Suc 0]" by (simp add: upt_conv_Cons)
  show ?thesis
    using retry_loop_all_fail [OF fails, of 0 env] retry_loop_alternates [OF fails, of 0 env] r
    by (simp add: retry_def alternating_def u)
qed

text \<open>
  Claim C6 says that \<open>retry(fn, {retries: 2})\<close> invokes an always failing \<open>fn\<close> 3
  times, sleeps twice and propagates the last error.  The code misses one case: when
  \<open>fn\<close> rejects with \<open>undefined\<close> (or \<open>null\<close>), which the default predicate accepts as
  retryable, \<open>calculateDelay\<close> raises on reading \<open>err.message\<close>, and \<open>retry\<close> ends
  after one invocation, without a sleep, with a \<open>TypeError\<close> instead of the value that
  \<open>fn\<close> threw.
\<close>

theorem retry_undefined_rejection:
  "the_shouldRetry (no_options\<lparr>retries := Some 2\<rparr>) Nullish
   \<and> retry fixed_platform always_undefined (no_options\<lparr>retries := Some 2\<rparr>) =
       (Inl (Error_object type_error), [Invoke 0])
   \<and> invocations (snd (retry fixed_platform always_undefined (no_options\<lparr>retries := Some 2\<rparr>))) = 1
   \<and> sleeps (snd (retry fixed_platform always_undefined (no_options\<lparr>retries := Some 2\<rparr>))) = 0
   \<and> fst (retry fixed_platform always_undefined (no_options\<lparr>retries := Some 2\<rparr>))
       \<noteq> always_undefined 2"
proof -
  have "retry fixed_platform always_undefined (no_options\<lparr>retries := Some 2\<rparr>) =
       (Inl (Error_object type_error), [Invoke 0])"
    unfolding retry_def
    by (subst retry_loop.simps)
      (simp add: always_undefined_def no_options_def the_retries_def the_shouldRetry_def
        calculateDelay_any_def)
  then show ?thesis
    by (simp add: invocations_def sleeps_def always_undefined_def the_shouldRetry_def
        no_options_def)
qed




text \<open>
  Claim C7 says that when reading the retry-after header throws, the delay falls
  back to the uncapped base delay.  The code does otherwise: at the first attempt,
  with the defaults and no jitter, the base delay is 1000 and the computed delay is
  2000; at the tenth attempt the base delay is 512000 and the computed delay is the
  cap, 30000.
\<close>

theorem calculateDelay_header_throws_doubles:
  "mentions_429 error_429_bad_headers
   \<and> calculateDelay (date_parse fixed_platform) 0 (1 / 2) 1 error_429_bad_headers
        (no_options\<lparr>jitter := Some False\<rparr>) = (2000, True)
   \<and> base_delay (no_options\<lparr>jitter := Some False\<rparr>) 1 = 1000
   \<and> calculateDelay (date_parse fixed_platform) 0 (1 / 2) 10 error_429_bad_headers
        (no_options\<lparr>jitter := Some False\<rparr>) = (30000, True)
   \<and> base_delay (no_options\<lparr>jitter := Some False\<rparr>) 10 = 512000"
  by (simp add: calculateDelay_def getDelayFromHeaders_def mentions_429_def
      error_429_bad_headers_def no_options_def base_delay_def the_factor_def
      the_minTimeout_def the_maxTimeout_def the_jitter_def Let_def)

text \<open>
  Claim C7, amended.  For a rate-limit (429) error whose retry-after header cannot
  be read because the lookup throws, the warning is logged and the delay falls back
  to twice the capped base delay, capped again at \<open>maxTimeout\<close>, that is
  \<open>min (2 * min (minDelay * factor^(attempt-1)) maxTimeout) maxTimeout\<close>; the jitter,
  when enabled, is applied to that value.
\<close>

theorem calculateDelay_header_throws:
  assumes "mentions_429 err" and "headers err = Get_throws"
  shows "calculateDelay parse t rnd attempt err options =
     (let capped = min (base_delay options attempt) (the_maxTimeout options);
          fallback = min (capped * 2) (the_maxTimeout options)
      in (if the_jitter options
          then real_of_int \<lfloor>fallback * (0.7 + rnd * 0.6)\<rfloor>
          else fallback, True))"
  using assms
  by (simp add: calculateDelay_def getDelayFromHeaders_def base_delay_def Let_def)

theorem calculateDelay_header_throws_witness:
  "mentions_429 error_429_bad_headers \<and> headers error_429_bad_headers = Get_throws
   \<and> calculateDelay (date_parse fixed_platform) 0 (1 / 2) 3 error_429_bad_headers no_options
       = (8000, True)"
  using calculateDelay_header_throws [where err = error_429_bad_headers and attempt = 3
      and parse = "date_parse fixed_platform" and t = 0 and rnd = "1 / 2"
      and options = no_options]
  by (simp add: mentions_429_def error_429_bad_headers_def no_options_def base_delay_def
      the_factor_def the_minTimeout_def the_maxTimeout_def the_jitter_def Let_def)

section \<open>Properties of the token bucket\<close>

lemma refill_keeps_bounds:
  assumes "- debt \<le> tokens rl" and "tokens rl \<le> maxTokens rl" and "0 \<le> maxTokens rl"
    and "0 \<le> debt" and "0 \<le> refillRate rl" and "lastRefill rl \<le> t"
  shows "- debt \<le> tokens (refill t rl) \<and> tokens (refill t rl) \<le> maxTokens rl
       \<and> maxTokens (refill t rl) = maxTokens rl \<and> refillRate (refill t rl) = refillRate rl
       \<and> lastRefill (refill t rl) = t"
proof -
  define gain where "gain = (t - lastRefill rl) * refillRate rl"
  have "0 \<le> gain" unfolding gain_def using assms(5,6) by simp
  then have "- debt \<le> min (maxTokens rl) (tokens rl + gain)"
    using assms(1,3,4) by simp
  then show ?thesis by (simp add: refill_def Let_def gain_def)
qed

lemma limiter_ok_step:
  assumes "limiter_ok cap debt s" and "limiter_step ev s = Some s'" and "0 \<le> cap"
    and "0 \<le> debt"
  shows "limiter_ok cap (debt + (case ev of Resume t \<Rightarrow> 1 | _ \<Rightarrow> 0)) s'"
proof (cases ev)
  case (Enter t)
  with assms(2) have t: "clock s \<le> t" by (auto simp: limiter_step_def split: if_splits)
  have r: "- debt \<le> tokens (refill t (limiter s)) \<and> tokens (refill t (limiter s)) \<le> cap
       \<and> maxTokens (refill t (limiter s)) = cap
       \<and> refillRate (refill t (limiter s)) = refillRate (limiter s)
       \<and> lastRefill (refill t (limiter s)) = t"
    using refill_keeps_bounds [of debt "limiter s" t] assms(1,3,4) t
    by (simp add: limiter_ok_def)
  have rate: "0 \<le> refillRate (limiter s)" using assms(1) by (simp add: limiter_ok_def)
  show ?thesis
  proof (cases "1 \<le> tokens (refill t (limiter s))")
    case True
    then show ?thesis
      using assms(2,4) Enter t r rate
      by (auto simp: limiter_ok_def limiter_step_def getToken_enter_def Let_def)
  next
    case False
    then show ?thesis
      using assms(2) Enter t r rate
      by (auto simp: limiter_ok_def limiter_step_def getToken_enter_def Let_def
          split: if_splits)
  qed
next
  case (Resume t)
  then show ?thesis
    using assms
    by (auto simp: limiter_ok_def limiter_step_def getToken_resume_def
        split: if_splits option.splits)
next
  case Adjust
  then show ?thesis
    using assms by (auto simp: limiter_ok_def limiter_step_def adjustRateLimit_def)
qed

lemma limiter_ok_steps:
  assumes "limiter_ok cap debt s" and "limiter_steps evs s = Some s'" and "0 \<le> cap"
    and "0 \<le> debt"
  shows "limiter_ok cap (debt + real (forced_decrements evs)) s'"
  using assms
proof (induction evs arbitrary: s debt)
  case Nil
  then show ?case by (simp add: forced_decrements_def)
next
  case (Cons ev evs)
  from Cons.prems(2) obtain s1 where s1: "limiter_step ev s = Some s1"
    and rest: "limiter_steps evs s1 = Some s'"
    by (auto split: option.splits)
  let ?d = "debt + (case ev of Resume t \<Rightarrow> 1 | _ \<Rightarrow> 0)"
  have ok1: "limiter_ok cap ?d s1"
    using limiter_ok_step [OF Cons.prems(1) s1 Cons.prems(3) Cons.prems(4)] .
  have d0: "0 \<le> ?d" using Cons.prems(4) by (cases ev) simp_all
  have "limiter_ok cap (?d + real (forced_decrements evs)) s'"
    using Cons.IH [OF ok1 rest Cons.prems(3) d0] .
  moreover have "?d + real (forced_decrements evs) = debt + real (forced_decrements (ev # evs))"
    by (cases ev) (simp_all add: forced_decrements_def)
  ultimately show ?case by simp
qed

text \<open>
  Claim C4 says that the token count lies in \<open>[0, maxCapacity]\<close> right after every
  \<open>refill\<close>.  The lower bound fails: with capacity 4 and one token per second (the
  limiter of a pool with limit 2), six callers enter at time 0; the last two find
  the bucket empty and sleep for 1000 ms, and both decrement on waking.  The count
  is then \<open>-2\<close>, and the refill of the next call at time 1000 leaves it at \<open>-1\<close>.
\<close>

theorem refill_negative_after_forced_waits:
  "limiter_steps [Enter 0, Enter 0, Enter 0, Enter 0, Enter 0, Enter 0, Resume 1000, Resume 1000]
     (limiter_start 0 4 1) =
     Some \<lparr>limiter = \<lparr>tokens = - 2, lastRefill = 0, maxTokens = 4, refillRate = 1 / 1000\<rparr>,
            sleepers = [], clock = 1000\<rparr>
   \<and> tokens (refill 1000
        \<lparr>tokens = - 2, lastRefill = 0, maxTokens = 4, refillRate = 1 / 1000\<rparr>) = - 1"
  by (simp add: limiter_step_def limiter_start_def new_RateLimiter_def getToken_enter_def
      refill_def getToken_resume_def Let_def)

text \<open>
  Claim C4, amended.  In every state that a limiter with a non-negative capacity
  and rate reaches under interleaved \<open>getToken\<close> calls, the token count right after
  \<open>refill\<close> lies in \<open>[-r, maxCapacity]\<close>, where \<open>r\<close> is the number of decrements that
  have been performed after a forced wait.  In particular it lies in
  \<open>[0, maxCapacity]\<close> as long as no caller has decremented after a forced wait.
\<close>

theorem refill_bounds:
  assumes "limiter_steps evs (limiter_start t0 cap rate) = Some s"
    and "0 \<le> cap" and "0 \<le> rate" and "clock s \<le> t"
  shows "- real (forced_decrements evs) \<le> tokens (refill t (limiter s))
       \<and> tokens (refill t (limiter s)) \<le> cap
       \<and> (forced_decrements evs = 0 \<longrightarrow>
            0 \<le> tokens (refill t (limiter s)) \<and> tokens (refill t (limiter s)) \<le> cap)"
proof -
  have "limiter_ok cap 0 (limiter_start t0 cap rate)"
    using assms(2,3) by (simp add: limiter_ok_def limiter_start_def new_RateLimiter_def)
  then have ok: "limiter_ok cap (real (forced_decrements evs)) s"
    using limiter_ok_steps [of cap 0 "limiter_start t0 cap rate" evs s] assms(1,2) by simp
  then have grow: "0 \<le> (t - lastRefill (limiter s)) * refillRate (limiter s)"
    using assms(4) by (simp add: limiter_ok_def)
  have low: "- real (forced_decrements evs) \<le> tokens (refill t (limiter s))"
    using ok grow assms(2) by (simp add: refill_def Let_def limiter_ok_def)
  have high: "tokens (refill t (limiter s)) \<le> cap"
    using ok by (simp add: refill_def Let_def limiter_ok_def)
  show ?thesis using low high by simp
qed

theorem refill_bounds_witness:
  "limiter_steps [Enter 0, Enter 0, Enter 0, Enter 0, Enter 0, Enter 0, Resume 1000, Resume 1000]
     (limiter_start 0 4 1) =
     Some \<lparr>limiter = \<lparr>tokens = - 2, lastRefill = 0, maxTokens = 4, refillRate = 1 / 1000\<rparr>,
            sleepers = [], clock = 1000\<rparr>
   \<and> forced_decrements
        [Enter 0, Enter 0, Enter 0, Enter 0, Enter 0, Enter 0, Resume 1000, Resume 1000] = 2
   \<and> - 2 \<le> tokens (refill 1500
        \<lparr>tokens = - 2, lastRefill = 0, maxTokens = 4, refillRate = 1 / 1000\<rparr>)
   \<and> limiter_steps [Enter 0, Enter 500] (limiter_start 0 4 1) =
     Some \<lparr>limiter = \<lparr>tokens = 5 / 2, lastRefill = 500, maxTokens = 4, refillRate = 1 / 1000\<rparr>,
            sleepers = [], clock = 500\<rparr>
   \<and> forced_decrements [Enter 0, Enter 500] = 0
   \<and> 0 \<le> tokens (refill 2500
        \<lparr>tokens = 5 / 2, lastRefill = 500, maxTokens = 4, refillRate = 1 / 1000\<rparr>)
   \<and> tokens (refill 2500
        \<lparr>tokens = 5 / 2, lastRefill = 500, maxTokens = 4, refillRate = 1 / 1000\<rparr>) \<le> 4"
proof -
  have run1: "limiter_steps
     [Enter 0, Enter 0, Enter 0, Enter 0, Enter 0, Enter 0, Resume 1000, Resume 1000]
     (limiter_start 0 4 1) =
     Some \<lparr>limiter = \<lparr>tokens = - 2, lastRefill = 0, maxTokens = 4, refillRate = 1 / 1000\<rparr>,
            sleepers = [], clock = 1000\<rparr>"
    by (simp add: limiter_step_def limiter_start_def new_RateLimiter_def getToken_enter_def
      refill_def getToken_resume_def Let_def)
  have run2: "limiter_steps [Enter 0, Enter 500] (limiter_start 0 4 1) =
     Some \<lparr>limiter = \<lparr>tokens = 5 / 2, lastRefill = 500, maxTokens = 4, refillRate = 1 / 1000\<rparr>,
            sleepers = [], clock = 500\<rparr>"
    by (simp add: limiter_step_def limiter_start_def new_RateLimiter_def getToken_enter_def
      refill_def Let_def)
  have c1: "forced_decrements
        [Enter 0, Enter 0, Enter 0, Enter 0, Enter 0, Enter 0, Resume 1000, Resume 1000] = 2"
    and c2: "forced_decrements [Enter 0, Enter 500] = 0"
    by (simp_all add: forced_decrements_def)
  show ?thesis
    using refill_bounds [OF run1, of 1500] refill_bounds [OF run2, of 2500] run1 run2 c1 c2
    by simp
qed

section \<open>Properties of the worker pool\<close>


lemma length_array_set: "length (array_set xs k v) = max (length xs) (Suc k)"
  by (simp add: array_set_def)

lemma nth_array_set_same: "array_set xs k v ! k = Some v"
  by (simp add: array_set_def nth_append)

lemma nth_array_set_other: "j < length xs \<Longrightarrow> j \<noteq> k \<Longrightarrow> array_set xs k v ! j = xs ! j"
  by (simp add: array_set_def nth_append)

lemma in_set_update_other: "r \<in> set xs \<Longrightarrow> r \<noteq> xs ! w \<Longrightarrow> r \<in> set (xs[w := y])"
  by (metis in_set_conv_nth length_list_update nth_list_update_neq)

lemma in_set_update_cases: "r \<in> set (xs[w := y]) \<Longrightarrow> r = y \<or> r \<in> set xs"
  using set_update_subset_insert by fastforce

lemma in_set_update_new: "w < length xs \<Longrightarrow> y \<in> set (xs[w := y])"
  by (simp add: set_update_memI)

lemma pool_inv_start: "pool_inv tasks (pool_start t limit)"
  by (simp add: pool_inv_def pool_start_def)


lemma pool_inv_claim:
  assumes inv: "pool_inv tasks p" and w: "w < length (runners p)"
    and at: "runners p ! w = At_loop" and more: "cursor p < length tasks"
    and x: "claimed x = Some (cursor p)" "not_yet_started x = Some (cursor p)"
  shows "pool_inv tasks (p\<lparr>cursor := cursor p + 1, rateLimiter := rl,
           runners := (runners p)[w := x]\<rparr>)"
proof -
  let ?rs = "(runners p)[w := x]"
  have xin: "x \<in> set ?rs" using w by (rule in_set_update_new)
  have keep: "\<And>r. r \<in> set (runners p) \<Longrightarrow> claimed r \<noteq> None \<Longrightarrow> r \<in> set ?rs"
    using at by (intro in_set_update_other) auto
  have keep2: "\<And>r. r \<in> set (runners p) \<Longrightarrow> not_yet_started r \<noteq> None \<Longrightarrow> r \<in> set ?rs"
    using at by (intro in_set_update_other) auto
  have old: "\<And>r. r \<in> set ?rs \<Longrightarrow> r = x \<or> r \<in> set (runners p)"
    by (rule in_set_update_cases)
  have i3: "\<forall>r \<in> set ?rs. \<forall>c. claimed r = Some c \<longrightarrow> c < cursor p + 1"
    using inv x old by (fastforce simp: pool_inv_def)
  have i4: "\<forall>k < cursor p + 1. (\<exists>r \<in> set ?rs. claimed r = Some k)
         \<or> (k < length (results p) \<and> results p ! k = Some (settle (tasks ! k)))"
  proof (intro allI impI)
    fix k assume "k < cursor p + 1"
    then consider "k = cursor p" | "k < cursor p" by linarith
    then show "(\<exists>r \<in> set ?rs. claimed r = Some k)
         \<or> (k < length (results p) \<and> results p ! k = Some (settle (tasks ! k)))"
    proof cases
      case 1 then show ?thesis using xin x by blast
    next
      case 2
      with inv have "(\<exists>r \<in> set (runners p). claimed r = Some k)
         \<or> (k < length (results p) \<and> results p ! k = Some (settle (tasks ! k)))"
        by (simp add: pool_inv_def)
      then show ?thesis using keep by force
    qed
  qed
  have i5: "\<forall>k < cursor p + 1. (\<exists>r \<in> set ?rs. not_yet_started r = Some k)
         \<or> k \<in> set (started p)"
  proof (intro allI impI)
    fix k assume "k < cursor p + 1"
    then consider "k = cursor p" | "k < cursor p" by linarith
    then show "(\<exists>r \<in> set ?rs. not_yet_started r = Some k) \<or> k \<in> set (started p)"
    proof cases
      case 1 then show ?thesis using xin x by blast
    next
      case 2
      with inv have "(\<exists>r \<in> set (runners p). not_yet_started r = Some k)
         \<or> k \<in> set (started p)"
        by (simp add: pool_inv_def)
      then show ?thesis using keep2 by force
    qed
  qed
  have i7: "Finished \<notin> set ?rs"
  proof
    assume "Finished \<in> set ?rs"
    then have "Finished = x \<or> Finished \<in> set (runners p)" by (rule old)
    then show False using x inv more by (auto simp: pool_inv_def)
  qed
  show ?thesis
    using inv more i3 i4 i5 i7 by (auto simp: pool_inv_def)
qed

lemma pool_inv_exit:
  assumes inv: "pool_inv tasks p" and w: "w < length (runners p)"
    and at: "runners p ! w = At_loop" and no_more: "\<not> cursor p < length tasks"
  shows "pool_inv tasks (p\<lparr>runners := (runners p)[w := Finished]\<rparr>)"
proof -
  let ?rs = "(runners p)[w := Finished]"
  have keep: "\<And>r. r \<in> set (runners p) \<Longrightarrow> claimed r \<noteq> None \<Longrightarrow> r \<in> set ?rs"
    using at by (intro in_set_update_other) auto
  have keep2: "\<And>r. r \<in> set (runners p) \<Longrightarrow> not_yet_started r \<noteq> None \<Longrightarrow> r \<in> set ?rs"
    using at by (intro in_set_update_other) auto
  have old: "\<And>r. r \<in> set ?rs \<Longrightarrow> r = Finished \<or> r \<in> set (runners p)"
    by (rule in_set_update_cases)
  have i3: "\<forall>r \<in> set ?rs. \<forall>c. claimed r = Some c \<longrightarrow> c < cursor p"
    using inv old by (fastforce simp: pool_inv_def)
  have i4: "\<forall>k < cursor p. (\<exists>r \<in> set ?rs. claimed r = Some k)
         \<or> (k < length (results p) \<and> results p ! k = Some (settle (tasks ! k)))"
    using inv keep unfolding pool_inv_def by (metis option.distinct(1))
  have i5: "\<forall>k < cursor p. (\<exists>r \<in> set ?rs. not_yet_started r = Some k)
         \<or> k \<in> set (started p)"
    using inv keep2 unfolding pool_inv_def by (metis option.distinct(1))
  have i7: "cursor p = length tasks" using inv no_more by (simp add: pool_inv_def)
  show ?thesis
    using inv i3 i4 i5 i7 by (auto simp: pool_inv_def)
qed


lemma pool_inv_resume:
  assumes inv: "pool_inv tasks p" and w: "w < length (runners p)"
    and at: "runners p ! w = Sleeping c"
  shows "pool_inv tasks (p\<lparr>rateLimiter := rl, runners := (runners p)[w := Has_token c]\<rparr>)"
proof -
  let ?rs = "(runners p)[w := Has_token c]"
  have xin: "Has_token c \<in> set ?rs" using w by (rule in_set_update_new)
  have win: "Sleeping c \<in> set (runners p)" using w at by (metis nth_mem)
  have keep: "\<And>r. r \<in> set (runners p) \<Longrightarrow> r \<noteq> Sleeping c \<Longrightarrow> r \<in> set ?rs"
    using at by (intro in_set_update_other) auto
  have old: "\<And>r. r \<in> set ?rs \<Longrightarrow> r = Has_token c \<or> r \<in> set (runners p)"
    by (rule in_set_update_cases)
  have c: "c < cursor p" using inv win by (auto simp: pool_inv_def)
  have i3: "\<forall>r \<in> set ?rs. \<forall>k. claimed r = Some k \<longrightarrow> k < cursor p"
    using inv old c by (fastforce simp: pool_inv_def)
  have i4: "\<forall>k < cursor p. (\<exists>r \<in> set ?rs. claimed r = Some k)
         \<or> (k < length (results p) \<and> results p ! k = Some (settle (tasks ! k)))"
  proof (intro allI impI)
    fix k assume k: "k < cursor p"
    show "(\<exists>r \<in> set ?rs. claimed r = Some k)
         \<or> (k < length (results p) \<and> results p ! k = Some (settle (tasks ! k)))"
    proof (cases "k = c")
      case True then show ?thesis using xin by force
    next
      case False
      from inv k have "(\<exists>r \<in> set (runners p). claimed r = Some k)
         \<or> (k < length (results p) \<and> results p ! k = Some (settle (tasks ! k)))"
        by (simp add: pool_inv_def)
      then show ?thesis using keep False by force
    qed
  qed
  have i5: "\<forall>k < cursor p. (\<exists>r \<in> set ?rs. not_yet_started r = Some k)
         \<or> k \<in> set (started p)"
  proof (intro allI impI)
    fix k assume k: "k < cursor p"
    show "(\<exists>r \<in> set ?rs. not_yet_started r = Some k) \<or> k \<in> set (started p)"
    proof (cases "k = c")
      case True then show ?thesis using xin by force
    next
      case False
      from inv k have "(\<exists>r \<in> set (runners p). not_yet_started r = Some k)
         \<or> k \<in> set (started p)"
        by (simp add: pool_inv_def)
      then show ?thesis using keep False by force
    qed
  qed
  have i7: "Finished \<in> set ?rs \<longrightarrow> cursor p = length tasks"
    using inv old by (auto simp: pool_inv_def)
  show ?thesis
    using inv i3 i4 i5 i7 by (auto simp: pool_inv_def)
qed

lemma pool_inv_begin_task:
  assumes inv: "pool_inv tasks p" and w: "w < length (runners p)"
    and at: "runners p ! w = Has_token c"
  shows "pool_inv tasks (p\<lparr>started := started p @ [c],
           runners := (runners p)[w := Running c]\<rparr>)"
proof -
  let ?rs = "(runners p)[w := Running c]"
  have xin: "Running c \<in> set ?rs" using w by (rule in_set_update_new)
  have win: "Has_token c \<in> set (runners p)" using w at by (metis nth_mem)
  have keep: "\<And>r. r \<in> set (runners p) \<Longrightarrow> r \<noteq> Has_token c \<Longrightarrow> r \<in> set ?rs"
    using at by (intro in_set_update_other) auto
  have old: "\<And>r. r \<in> set ?rs \<Longrightarrow> r = Running c \<or> r \<in> set (runners p)"
    by (rule in_set_update_cases)
  have c: "c < cursor p" using inv win by (auto simp: pool_inv_def)
  have i3: "\<forall>r \<in> set ?rs. \<forall>k. claimed r = Some k \<longrightarrow> k < cursor p"
    using inv old c by (fastforce simp: pool_inv_def)
  have i4: "\<forall>k < cursor p. (\<exists>r \<in> set ?rs. claimed r = Some k)
         \<or> (k < length (results p) \<and> results p ! k = Some (settle (tasks ! k)))"
  proof (intro allI impI)
    fix k assume k: "k < cursor p"
    show "(\<exists>r \<in> set ?rs. claimed r = Some k)
         \<or> (k < length (results p) \<and> results p ! k = Some (settle (tasks ! k)))"
    proof (cases "k = c")
      case True then show ?thesis using xin by force
    next
      case False
      from inv k have "(\<exists>r \<in> set (runners p). claimed r = Some k)
         \<or> (k < length (results p) \<and> results p ! k = Some (settle (tasks ! k)))"
        by (simp add: pool_inv_def)
      then show ?thesis using keep False by force
    qed
  qed
  have i5: "\<forall>k < cursor p. (\<exists>r \<in> set ?rs. not_yet_started r = Some k)
         \<or> k \<in> set (started p @ [c])"
  proof (intro allI impI)
    fix k assume k: "k < cursor p"
    show "(\<exists>r \<in> set ?rs. not_yet_started r = Some k) \<or> k \<in> set (started p @ [c])"
    proof (cases "k = c")
      case True then show ?thesis by simp
    next
      case False
      from inv k have "(\<exists>r \<in> set (runners p). not_yet_started r = Some k)
         \<or> k \<in> set (started p)"
        by (simp add: pool_inv_def)
      then show ?thesis using keep False by force
    qed
  qed
  have i6: "set (started p @ [c]) \<subseteq> {..<cursor p}"
    using inv c by (auto simp: pool_inv_def)
  have i7: "Finished \<in> set ?rs \<longrightarrow> cursor p = length tasks"
    using inv old by (auto simp: pool_inv_def)
  show ?thesis
    using inv i3 i4 i5 i6 i7 by (simp add: pool_inv_def)
qed

lemma pool_inv_record:
  assumes inv: "pool_inv tasks p" and w: "w < length (runners p)"
    and at: "runners p ! w = Running c"
    and v: "v = settle (tasks ! c)"
    and x: "claimed x = None" "not_yet_started x = None" "x \<noteq> Finished"
  shows "pool_inv tasks (p\<lparr>results := array_set (results p) c v,
           runners := (runners p)[w := x]\<rparr>)"
proof -
  let ?rs = "(runners p)[w := x]"
  let ?res = "array_set (results p) c v"
  have win: "Running c \<in> set (runners p)" using w at by (metis nth_mem)
  have keep: "\<And>r. r \<in> set (runners p) \<Longrightarrow> r \<noteq> Running c \<Longrightarrow> r \<in> set ?rs"
    using at by (intro in_set_update_other) auto
  have old: "\<And>r. r \<in> set ?rs \<Longrightarrow> r = x \<or> r \<in> set (runners p)"
    by (rule in_set_update_cases)
  have c: "c < cursor p" using inv win by (auto simp: pool_inv_def)
  have i2: "length ?res \<le> cursor p"
    using inv c by (simp add: length_array_set pool_inv_def)
  have i3: "\<forall>r \<in> set ?rs. \<forall>k. claimed r = Some k \<longrightarrow> k < cursor p"
    using inv old x by (fastforce simp: pool_inv_def)
  have i4: "\<forall>k < cursor p. (\<exists>r \<in> set ?rs. claimed r = Some k)
         \<or> (k < length ?res \<and> ?res ! k = Some (settle (tasks ! k)))"
  proof (intro allI impI)
    fix k assume k: "k < cursor p"
    show "(\<exists>r \<in> set ?rs. claimed r = Some k)
         \<or> (k < length ?res \<and> ?res ! k = Some (settle (tasks ! k)))"
    proof (cases "k = c")
      case True then show ?thesis
        using v by (simp add: length_array_set nth_array_set_same less_max_iff_disj)
    next
      case False
      from inv k have "(\<exists>r \<in> set (runners p). claimed r = Some k)
         \<or> (k < length (results p) \<and> results p ! k = Some (settle (tasks ! k)))"
        by (simp add: pool_inv_def)
      then show ?thesis
      proof
        assume "\<exists>r \<in> set (runners p). claimed r = Some k"
        then show ?thesis using keep False by force
      next
        assume "k < length (results p) \<and> results p ! k = Some (settle (tasks ! k))"
        then show ?thesis
          using False by (simp add: length_array_set nth_array_set_other less_max_iff_disj)
      qed
    qed
  qed
  have i5: "\<forall>k < cursor p. (\<exists>r \<in> set ?rs. not_yet_started r = Some k)
         \<or> k \<in> set (started p)"
  proof (intro allI impI)
    fix k assume k: "k < cursor p"
    from inv k have "(\<exists>r \<in> set (runners p). not_yet_started r = Some k)
         \<or> k \<in> set (started p)"
      by (simp add: pool_inv_def)
    then show "(\<exists>r \<in> set ?rs. not_yet_started r = Some k) \<or> k \<in> set (started p)"
      using keep by force
  qed
  have i7: "Finished \<in> set ?rs \<longrightarrow> cursor p = length tasks"
    using inv old x by (auto simp: pool_inv_def)
  show ?thesis
    using inv i2 i3 i4 i5 i7 by (simp add: pool_inv_def)
qed

lemma pool_inv_step:
  assumes inv: "pool_inv tasks p"
  shows "pool_inv tasks (runner_step tasks wt p)"
proof (cases "fst wt < length (runners p)")
  case False
  then show ?thesis using inv by (simp add: runner_step_def Let_def)
next
  case w: True
  show ?thesis
  proof (cases "runners p ! fst wt")
    case At_loop
    show ?thesis
    proof (cases "cursor p < length tasks")
      case True
      obtain rl adm where g: "getToken_enter (snd wt) (rateLimiter p) = (rl, adm)"
        by (cases "getToken_enter (snd wt) (rateLimiter p)") auto
      show ?thesis
        using pool_inv_claim [OF inv w At_loop True, of
            "case adm of Admitted \<Rightarrow> Has_token (cursor p) | Must_wait x \<Rightarrow> Sleeping (cursor p)" rl]
          w At_loop True g
        by (simp add: runner_step_def Let_def split: admission.splits)
    next
      case False
      then show ?thesis
        using pool_inv_exit [OF inv w At_loop False] w At_loop
        by (simp add: runner_step_def Let_def)
    qed
  next
    case (Sleeping c)
    then show ?thesis
      using pool_inv_resume [OF inv w Sleeping] w by (simp add: runner_step_def Let_def)
  next
    case (Has_token c)
    then show ?thesis
      using pool_inv_begin_task [OF inv w Has_token] w by (simp add: runner_step_def Let_def)
  next
    case (Running c)
    have "Running c \<in> set (runners p)" using w Running by (metis nth_mem)
    then have c: "c < length tasks" using inv by (auto simp: pool_inv_def)
    show ?thesis
    proof (cases "tasks ! c")
      case (Resolves v)
      then show ?thesis
        using pool_inv_record [OF inv w Running refl, of At_loop] w Running c
        by (simp add: runner_step_def Let_def record_outcome_def settle_def)
    next
      case (Throws err)
      show ?thesis
      proof (cases err)
        case Nullish
        then show ?thesis
          using pool_inv_record [OF inv w Running refl, of Crashed] w Running c Throws
          by (simp add: runner_step_def Let_def record_outcome_def settle_def)
      next
        case (Error_object e)
        have "pool_inv tasks (p\<lparr>results := array_set (results p) c (Rejected err),
             runners := (runners p)[fst wt := At_loop]\<rparr>)"
          using pool_inv_record [OF inv w Running refl, of At_loop] Throws
          by (simp add: settle_def)
        then show ?thesis
          using w Running c Throws Error_object
          by (simp add: runner_step_def Let_def record_outcome_def pool_inv_def)
      qed
    qed
  next
    case Finished
    then show ?thesis using inv w by (simp add: runner_step_def Let_def)
  next
    case Crashed
    then show ?thesis using inv w by (simp add: runner_step_def Let_def)
  qed
qed

lemma pool_inv_run: "pool_inv tasks p \<Longrightarrow> pool_inv tasks (run_pool tasks sched p)"
  unfolding run_pool_def
  by (induction sched arbitrary: p) (simp_all add: pool_inv_step)




lemma length_runners_step [simp]:
  "length (runners (runner_step tasks wt p)) = length (runners p)"
  by (simp add: runner_step_def Let_def record_outcome_def case_prod_beta
      split: runner.splits task.splits thrown.splits)

lemma length_runners_run [simp]:
  "length (runners (run_pool tasks sched p)) = length (runners p)"
  unfolding run_pool_def by (induction sched arbitrary: p) simp_all

lemma sum_weight_update:
  "w < length rs \<Longrightarrow>
   sum_list (map weight (rs[w := r])) + weight (rs ! w) = sum_list (map weight rs) + weight r"
proof (induction rs arbitrary: w)
  case Nil then show ?case by simp
next
  case (Cons a rs)
  show ?case
  proof (cases w)
    case 0 then show ?thesis by simp
  next
    case (Suc v)
    then have "v < length rs" using Cons.prems by simp
    then show ?thesis using Cons.IH [of v] Suc by simp
  qed
qed

lemma step_decreases:
  assumes w: "fst wt < length (runners p)" and u: "active (runners p ! fst wt)"
  shows "remaining_steps tasks (runner_step tasks wt p) < remaining_steps tasks p"
proof (cases "runners p ! fst wt")
  case At_loop
  show ?thesis
  proof (cases "cursor p < length tasks")
    case True
    obtain rl adm where g: "getToken_enter (snd wt) (rateLimiter p) = (rl, adm)"
      by (cases "getToken_enter (snd wt) (rateLimiter p)") auto
    show ?thesis
      using sum_weight_update [OF w, of "Has_token (cursor p)"]
        sum_weight_update [OF w, of "Sleeping (cursor p)"] w At_loop True g
      by (cases adm) (simp_all add: runner_step_def remaining_steps_def Let_def)
  next
    case False
    then show ?thesis
      using sum_weight_update [OF w, of Finished] w At_loop
      by (simp add: runner_step_def remaining_steps_def Let_def)
  qed
next
  case (Sleeping c)
  then show ?thesis
    using sum_weight_update [OF w, of "Has_token c"] w
    by (simp add: runner_step_def remaining_steps_def Let_def)
next
  case (Has_token c)
  then show ?thesis
    using sum_weight_update [OF w, of "Running c"] w
    by (simp add: runner_step_def remaining_steps_def Let_def)
next
  case (Running c)
  then show ?thesis
    using sum_weight_update [OF w, of At_loop] sum_weight_update [OF w, of Crashed] w
    by (simp add: runner_step_def remaining_steps_def Let_def record_outcome_def
        split: task.splits thrown.splits)
next
  case Finished
  then show ?thesis using u by (simp add: active_def)
next
  case Crashed
  then show ?thesis using u by (simp add: active_def)
qed

lemma first_unfinished_None: "first_unfinished rs = None \<Longrightarrow> list_all (\<lambda>r. \<not> active r) rs"
  by (induction rs) (auto split: if_splits)

lemma first_unfinished_Some:
  "first_unfinished rs = Some w \<Longrightarrow> w < length rs \<and> active (rs ! w)"
  by (induction rs arbitrary: w) (auto split: if_splits)

lemma run_pool_Cons: "run_pool tasks (wt # sched) p = run_pool tasks sched (runner_step tasks wt p)"
  by (simp add: run_pool_def)


lemma run_to_completion_finishes:
  "remaining_steps tasks p \<le> n \<Longrightarrow>
   list_all (\<lambda>r. \<not> active r) (runners (run_pool tasks (run_to_completion n t tasks p) p))"
proof (induction n arbitrary: p)
  case 0
  then have "sum_list (map weight (runners p)) = 0" by (simp add: remaining_steps_def)
  then have z: "\<forall>r \<in> set (runners p). weight r = 0" by auto
  have "\<not> active r" if "weight r = 0" for r
    using that by (cases r) (simp_all add: active_def)
  then have "\<forall>r \<in> set (runners p). \<not> active r" using z by blast
  then show ?case by (simp add: run_pool_def list_all_iff)
next
  case (Suc n)
  show ?case
  proof (cases "first_unfinished (runners p)")
    case None
    then show ?thesis
      using first_unfinished_None by (simp add: run_pool_def)
  next
    case (Some w)
    then have "fst (w, t) < length (runners p)" "active (runners p ! fst (w, t))"
      using first_unfinished_Some by auto
    then have "remaining_steps tasks (runner_step tasks (w, t) p) < remaining_steps tasks p"
      by (rule step_decreases)
    then have "remaining_steps tasks (runner_step tasks (w, t) p) \<le> n" using Suc.prems by simp
    then show ?thesis using Suc.IH Some by (simp add: run_pool_Cons)
  qed
qed



lemma finished_results:
  assumes inv: "pool_inv tasks p" and fin: "all_finished p" and ne: "runners p \<noteq> []"
  shows "results p = map (\<lambda>task. Some (settle task)) tasks \<and> set (started p) = {..<length tasks}"
proof -
  have all: "\<forall>r \<in> set (runners p). r = Finished"
    using fin by (simp add: all_finished_def list_all_iff)
  then have "Finished \<in> set (runners p)" using ne by (cases "runners p") auto
  then have c: "cursor p = length tasks" using inv by (simp add: pool_inv_def)
  have rec: "\<forall>k < length tasks. k < length (results p) \<and> results p ! k = Some (settle (tasks ! k))"
    using inv all c unfolding pool_inv_def by (metis claimed.simps(5) option.distinct(1))
  have len: "length (results p) = length tasks"
  proof (cases "length tasks")
    case 0 then show ?thesis using inv c by (simp add: pool_inv_def)
  next
    case (Suc n)
    then have "n < length (results p)" using rec by simp
    moreover have "length (results p) \<le> length tasks" using inv c by (simp add: pool_inv_def)
    ultimately show ?thesis using Suc by simp
  qed
  have r: "results p = map (\<lambda>task. Some (settle task)) tasks"
    using len rec by (intro nth_equalityI) simp_all
  have st: "\<forall>k < length tasks. k \<in> set (started p)"
    using inv all c unfolding pool_inv_def by (metis not_yet_started.simps(5) option.distinct(1))
  have "set (started p) \<subseteq> {..<length tasks}" using inv c by (simp add: pool_inv_def)
  then have "set (started p) = {..<length tasks}" using st by auto
  then show ?thesis using r by simp
qed



text \<open>
  On a task list without a rejection with \<open>null\<close> or \<open>undefined\<close> no runner ever
  ends by an exception.
\<close>

lemma no_crash_step:
  assumes inv: "pool_inv tasks p" and ok: "no_nullish tasks"
    and quiet: "Crashed \<notin> set (runners p)"
  shows "Crashed \<notin> set (runners (runner_step tasks wt p))"
proof (cases "fst wt < length (runners p)")
  case False
  then show ?thesis using quiet by (simp add: runner_step_def Let_def)
next
  case w: True
  have upd: "Crashed \<notin> set ((runners p)[fst wt := x])" if "x \<noteq> Crashed" for x
    using quiet that in_set_update_cases [of Crashed "runners p" "fst wt" x] by auto
  show ?thesis
  proof (cases "runners p ! fst wt")
    case At_loop
    then show ?thesis
      using w upd
      by (auto simp: runner_step_def Let_def case_prod_beta split: admission.splits)
  next
    case (Sleeping c)
    then show ?thesis using w upd by (simp add: runner_step_def Let_def)
  next
    case (Has_token c)
    then show ?thesis using w upd by (simp add: runner_step_def Let_def)
  next
    case (Running c)
    have "Running c \<in> set (runners p)" using w Running by (metis nth_mem)
    then have c: "c < length tasks" using inv by (auto simp: pool_inv_def)
    then have "tasks ! c \<noteq> Throws Nullish"
      using ok by (simp add: no_nullish_def list_all_length)
    then show ?thesis
      using w upd Running c
      by (auto simp: runner_step_def Let_def record_outcome_def
          split: task.splits thrown.splits)
  next
    case Finished
    then show ?thesis using quiet w by (simp add: runner_step_def Let_def)
  next
    case Crashed
    then show ?thesis using quiet w by (simp add: runner_step_def Let_def)
  qed
qed

lemma no_crash_run:
  assumes "pool_inv tasks p" and "no_nullish tasks" and "Crashed \<notin> set (runners p)"
  shows "Crashed \<notin> set (runners (run_pool tasks sched p))"
  using assms
proof (induction sched arbitrary: p)
  case Nil
  then show ?case by (simp add: run_pool_def)
next
  case (Cons wt sched)
  then show ?case
    by (simp add: run_pool_Cons pool_inv_step no_crash_step)
qed

lemma pool_inv_reached:
  "pool_inv tasks (run_pool tasks sched (pool_start t0 limit))"
  by (rule pool_inv_run) (rule pool_inv_start)

lemma runners_start [simp]: "runners (pool_start t0 limit) = replicate limit At_loop"
  by (simp add: pool_start_def)

text \<open>
  Whatever the schedule, a list returned by a pool with at least one runner holds
  the outcome of every task at the index of the task, and every task has been
  called.
\<close>

lemma pool_returns_settled:
  assumes "1 \<le> limit"
    and "runtWithConcurrencyLimit t0 sched tasks limit = Some (Inr r)"
  shows "r = map (\<lambda>task. Some (settle task)) tasks
       \<and> set (started (run_pool tasks sched (pool_start t0 (nat limit)))) = {..<length tasks}"
proof -
  let ?p = "run_pool tasks sched (pool_start t0 (nat limit))"
  have fin: "all_finished ?p" and r: "r = results ?p"
    using assms(2) by (auto simp: runtWithConcurrencyLimit_def Let_def split: if_splits)
  have "length (runners ?p) = nat limit" by simp
  with assms(1) have "0 < length (runners ?p)" by linarith
  then have ne: "runners ?p \<noteq> []" by (rule length_greater_0_conv [THEN iffD1])
  show ?thesis using finished_results [OF pool_inv_reached fin ne] r by simp
qed





text \<open>
  Claim C10.  With a limit of 0 the pool has no runners, calls no task and returns
  the empty list for every task list; for a non-empty task list the result
  therefore does not have one entry per task.
\<close>

theorem pool_limit_zero:
  fixes tasks :: "'a task list"
  shows "runners (pool_start t0 0 :: 'a pool) = []
       \<and> run_pool tasks sched (pool_start t0 0) = pool_start t0 0
       \<and> started (run_pool tasks sched (pool_start t0 0)) = []
       \<and> runtWithConcurrencyLimit t0 sched tasks 0 = Some (Inr [])
       \<and> (tasks \<noteq> [] \<longrightarrow>
            (\<forall>r. runtWithConcurrencyLimit t0 sched tasks 0 = Some (Inr r)
               \<longrightarrow> length r \<noteq> length tasks))"
proof -
  have idle: "runner_step tasks wt p = p" if "runners p = []" for wt and p :: "'a pool"
    using that by (simp add: runner_step_def Let_def)
  have run: "run_pool tasks sched p = p" if "runners p = []" for p :: "'a pool"
    using that unfolding run_pool_def by (induction sched) (simp_all add: idle)
  have s: "run_pool tasks sched (pool_start t0 0) = pool_start t0 0"
    by (rule run) simp
  show ?thesis
    by (simp add: s runtWithConcurrencyLimit_def all_finished_def array_length_def)
      (simp add: pool_start_def)
qed

theorem pool_limit_zero_witness:
  "runtWithConcurrencyLimit 0 [(0, 0), (1, 5)]
     [Resolves ''success1'', Throws (Error_object test_error), Resolves ''success2''] 0
     = Some (Inr [])
   \<and> started (run_pool
        [Resolves ''success1'', Throws (Error_object test_error), Resolves ''success2'']
        [(0, 0), (1, 5)] (pool_start 0 0)) = []
   \<and> length ([] :: string settled option list)
       \<noteq> length [Resolves ''success1'', Throws (Error_object test_error),
                   Resolves ''success2'']"
  using pool_limit_zero [of 0
      "[Resolves ''success1'', Throws (Error_object test_error), Resolves ''success2'']"
      "[(0, 0), (1, 5)]"]
  by (simp add: pool_start_def)

text \<open>
  A runner that has ended stays ended, and a rejection with \<open>null\<close> or \<open>undefined\<close> is
  never recorded without ending the runner that records it.
\<close>

lemma set_array_set: "x \<in> set (array_set xs k v) \<Longrightarrow> x = Some v \<or> x = None \<or> x \<in> set xs"
  using set_update_subset_insert [of xs k "Some v"] by (auto simp: array_set_def split: if_splits)

lemma crash_recorded_step:
  assumes j: "Some (Rejected Nullish) \<in> set (results p) \<longrightarrow> Crashed \<in> set (runners p)"
  shows "Some (Rejected Nullish) \<in> set (results (runner_step tasks wt p))
         \<longrightarrow> Crashed \<in> set (runners (runner_step tasks wt p))"
proof (cases "fst wt < length (runners p)")
  case False
  then show ?thesis using j by (simp add: runner_step_def Let_def)
next
  case w: True
  have keep: "Crashed \<in> set ((runners p)[fst wt := x])"
    if "Crashed \<in> set (runners p)" "runners p ! fst wt \<noteq> Crashed" for x
    using that by (intro in_set_update_other) auto
  show ?thesis
  proof (cases "runners p ! fst wt")
    case At_loop
    then show ?thesis
      using w j keep [of "Has_token (cursor p)"] keep [of "Sleeping (cursor p)"] keep [of Finished]
      by (auto simp: runner_step_def Let_def case_prod_beta split: admission.splits)
  next
    case (Sleeping c)
    then show ?thesis using w j keep [of "Has_token c"] by (simp add: runner_step_def Let_def)
  next
    case (Has_token c)
    then show ?thesis using w j keep [of "Running c"] by (simp add: runner_step_def Let_def)
  next
    case (Running c)
    let ?task = "if c < length tasks then tasks ! c else Throws (Error_object type_error)"
    show ?thesis
    proof (cases ?task)
      case (Resolves v)
      then show ?thesis
        using w j Running keep [of At_loop] set_array_set [of "Some (Rejected Nullish)" "results p" c "Fulfilled v"]
        by (auto simp: runner_step_def Let_def record_outcome_def)
    next
      case (Throws err)
      show ?thesis
      proof (cases err)
        case Nullish
        then show ?thesis
          using w Running Throws in_set_update_new [OF w, of Crashed]
          by (simp add: runner_step_def Let_def record_outcome_def)
      next
        case (Error_object e)
        then show ?thesis
          using w j Running Throws keep [of At_loop]
            set_array_set [of "Some (Rejected Nullish)" "results p" c "Rejected err"]
          by (auto simp: runner_step_def Let_def record_outcome_def)
      qed
    qed
  next
    case Finished
    then show ?thesis using w j by (simp add: runner_step_def Let_def)
  next
    case Crashed
    then show ?thesis using w j by (simp add: runner_step_def Let_def)
  qed
qed

lemma crash_recorded_run:
  assumes "Some (Rejected Nullish) \<in> set (results p) \<longrightarrow> Crashed \<in> set (runners p)"
  shows "Some (Rejected Nullish) \<in> set (results (run_pool tasks sched p))
         \<longrightarrow> Crashed \<in> set (runners (run_pool tasks sched p))"
  using assms
proof (induction sched arbitrary: p)
  case Nil
  then show ?case by (simp add: run_pool_def)
next
  case (Cons wt sched)
  show ?case
    unfolding run_pool_Cons
    by (rule Cons.IH) (rule crash_recorded_step [OF Cons.prems])
qed

text \<open>
  A pool whose task list holds a task that is rejected with \<open>null\<close> or \<open>undefined\<close>
  never returns a list of results, whatever the schedule.
\<close>

lemma pool_never_returns_after_nullish:
  assumes "1 \<le> limit" and "Throws Nullish \<in> set tasks"
  shows "runtWithConcurrencyLimit t0 sched tasks limit \<noteq> Some (Inr r)"
proof
  let ?p = "run_pool tasks sched (pool_start t0 (nat limit))"
  assume ret: "runtWithConcurrencyLimit t0 sched tasks limit = Some (Inr r)"
  then have r: "r = map (\<lambda>task. Some (settle task)) tasks"
    using pool_returns_settled [OF assms(1)] by blast
  have calm: "Crashed \<notin> set (runners ?p)" and res: "r = results ?p"
    using ret by (auto simp: runtWithConcurrencyLimit_def Let_def split: if_splits)
  have "Some (settle (Throws Nullish)) \<in> set r"
    unfolding r using assms(2) by (simp add: image_iff) blast
  then have "Some (Rejected Nullish) \<in> set (results ?p)"
    using res by (simp add: settle_def)
  moreover have "Some (Rejected Nullish) \<in> set (results ?p) \<longrightarrow> Crashed \<in> set (runners ?p)"
    by (rule crash_recorded_run) (simp add: pool_start_def)
  ultimately show False using calm by blast
qed

text \<open>
  With a single runner and a first task that is rejected with \<open>undefined\<close>, the
  second task is never called.
\<close>

lemma single_runner_stops:
  fixes p :: "'a pool"
  assumes "cursor p = 0 \<and> started p = [] \<and> runners p = [At_loop]
         \<or> cursor p = 1 \<and> started p = []
             \<and> (runners p = [Sleeping 0] \<or> runners p = [Has_token 0])
         \<or> cursor p = 1 \<and> started p = [0]
             \<and> (runners p = [Running 0] \<or> runners p = [Crashed])"
    (is "?Q p")
  shows "?Q (run_pool [Throws Nullish, Resolves v] sched p)"
  using assms
proof (induction sched arbitrary: p)
  case Nil
  then show ?case by (simp add: run_pool_def)
next
  case (Cons wt sched)
  have "?Q (runner_step [Throws Nullish, Resolves v] wt p)"
  proof (cases "fst wt")
    case 0
    then show ?thesis
      using Cons.prems
      by (auto simp: runner_step_def Let_def record_outcome_def case_prod_beta
          split: admission.splits)
  next
    case (Suc n)
    then show ?thesis
      using Cons.prems by (auto simp: runner_step_def Let_def)
  qed
  then show ?case unfolding run_pool_Cons by (rule Cons.IH)
qed

text \<open>
  Claim C8 says that no task's failure keeps another task from being executed and
  recorded.  The code misses one case: for a task that is rejected with \<open>undefined\<close>
  (or \<open>null\<close>) the \<open>catch\<close> block raises on reading \<open>error.message\<close>.  On the tasks
  \<open>[ok, rejects with undefined, ok]\<close> at limit 2 the call never returns a list,
  under any schedule, and it is rejected with a \<open>TypeError\<close> as soon as the runner
  of the second task has ended.  With limit 1 and the failing task first, the
  other task is never called.
\<close>

theorem pool_undefined_rejection_ends_runner:
  "(\<forall>sched r. runtWithConcurrencyLimit 0 sched
       [Resolves ''success1'', Throws Nullish, Resolves ''success2''] 2 \<noteq> Some (Inr r))
   \<and> runtWithConcurrencyLimit 0 [(0, 0), (1, 0), (1, 0), (1, 0)]
       [Resolves ''success1'', Throws Nullish, Resolves ''success2''] 2
       = Some (Inl (Error_object type_error))
   \<and> (\<forall>sched. 1 \<notin> set (started (run_pool [Throws Nullish, Resolves ''success2''] sched
         (pool_start 0 1))))
   \<and> runtWithConcurrencyLimit 0 [(0, 0), (0, 0), (0, 0)]
       [Throws Nullish, Resolves ''success2''] 1
       = Some (Inl (Error_object type_error))"
proof (intro conjI allI)
  fix sched r
  show "runtWithConcurrencyLimit 0 sched
       [Resolves ''success1'', Throws Nullish, Resolves ''success2''] 2 \<noteq> Some (Inr r)"
    by (rule pool_never_returns_after_nullish) simp_all
next
  show "runtWithConcurrencyLimit 0 [(0, 0), (1, 0), (1, 0), (1, 0)]
       [Resolves ''success1'', Throws Nullish, Resolves ''success2''] 2
       = Some (Inl (Error_object type_error))"
    by (simp add: runtWithConcurrencyLimit_def array_length_def run_pool_def pool_start_def
        runner_step_def record_outcome_def getToken_enter_def refill_def new_RateLimiter_def
        Let_def numeral_2_eq_2)
next
  fix sched
  have "cursor (pool_start 0 1 :: string pool) = 0 \<and> started (pool_start 0 1 :: string pool) = []
        \<and> runners (pool_start 0 1 :: string pool) = [At_loop]"
    by (simp add: pool_start_def)
  then show "1 \<notin> set (started (run_pool [Throws Nullish, Resolves ''success2''] sched
         (pool_start 0 1)))"
    using single_runner_stops [of "pool_start 0 1 :: string pool" "''success2''" sched]
    by auto
next
  show "runtWithConcurrencyLimit 0 [(0, 0), (0, 0), (0, 0)]
       [Throws Nullish, Resolves ''success2''] 1
       = Some (Inl (Error_object type_error))"
    by (simp add: runtWithConcurrencyLimit_def array_length_def run_pool_def pool_start_def
        runner_step_def record_outcome_def getToken_enter_def refill_def new_RateLimiter_def
        Let_def)
qed

section \<open>Properties of the batch scheduler\<close>

lemma await_pool_oldest_first:
  assumes "1 \<le> limit" and "limit < 2 ^ 32" and "no_nullish batch"
    and "interleaving env = oldest_first"
  shows "await_pool env i batch limit = Some (Inr (map (\<lambda>task. Some (settle task)) batch))"
proof -
  let ?p = "pool_start (start_time env i) (nat limit) :: 'a pool"
  let ?q = "run_pool batch (oldest_first batch ?p) ?p"
  have len: "array_length limit" using assms(1,2) by (simp add: array_length_def)
  have stopped: "list_all (\<lambda>r. \<not> active r) (runners ?q)"
    unfolding oldest_first_def by (rule run_to_completion_finishes) simp
  have "Crashed \<notin> set (runners ?p)" by simp
  then have calm: "Crashed \<notin> set (runners ?q)"
    using no_crash_run [OF pool_inv_start assms(3)] by blast
  have "all_finished ?q"
    unfolding all_finished_def list_all_iff
  proof
    fix r assume r: "r \<in> set (runners ?q)"
    then have "\<not> active r" using stopped by (simp add: list_all_iff)
    moreover have "r \<noteq> Crashed" using r calm by auto
    ultimately show "r = Finished" by (simp add: active_def)
  qed
  then have ret: "await_pool env i batch limit = Some (Inr (results ?q))"
    using len calm by (simp add: await_pool_def runtWithConcurrencyLimit_def Let_def assms(4))
  then have "results ?q = map (\<lambda>task. Some (settle task)) batch"
    using pool_returns_settled [OF assms(1), of "start_time env i" _ batch "results ?q"]
    by (simp add: await_pool_def)
  then show ?thesis using ret by simp
qed

lemma await_pool_quiet:
  "1 \<le> limit \<Longrightarrow> limit < 2 ^ 32 \<Longrightarrow> no_nullish batch \<Longrightarrow>
   await_pool quiet i batch limit = Some (Inr (map (\<lambda>task. Some (settle task)) batch))"
  by (rule await_pool_oldest_first) (simp_all add: quiet_def)

text \<open>
  In the first variant every call of the pool gets the value of the parameter as its
  limit, whatever happens to the builder during the run.
\<close>

lemma processBatches_loop_limit:
  assumes "processBatches_loop env i batches c run = Some (Inr run')"
    and "\<forall>call \<in> set (pool_calls run). snd call = c"
  shows "\<forall>call \<in> set (pool_calls run'). snd call = c"
  using assms
proof (induction batches arbitrary: i run)
  case Nil
  then show ?case by simp
next
  case (Cons batchTasks rest)
  from Cons.prems(1) obtain batchResults where
    r: "await_pool env i batchTasks c = Some (Inr batchResults)"
    by (auto split: option.splits sum.splits)
  from Cons.prems(1) r obtain failed where f: "failedWith429 batchResults = Inr failed"
    by (cases "failedWith429 batchResults") (auto simp: Let_def)
  show ?case
  proof (cases "rest = []")
    case True
    then show ?thesis
      using Cons.prems r f by (auto simp: Let_def)
  next
    case False
    then show ?thesis
      using Cons.prems r f
      by (simp add: Let_def) (erule Cons.IH, simp)
  qed
qed

lemma processBatches_limit_fixed:
  assumes "processBatches env allTasks c b = Some (Inr run)"
  shows "\<forall>call \<in> set (pool_calls run). snd call = c"
  using assms processBatches_loop_limit [of env 0 "chunks (batchSize b) allTasks" c
      "\<lparr>collected = [], builder = b, pool_calls = [], pauses = 0\<rparr>" run]
  by (simp add: processBatches_def split: if_splits)

text \<open>
  Claim C5 says that every batch runs at the concurrency level that is current when
  the batch starts.  The first variant does not do so.  On 21 tasks of which the
  first is rejected with a 429, started at concurrency 3, the check after the first
  batch lowers the builder's concurrency to 2, yet the second batch is handed to
  the pool with limit 3, the value of the parameter.  The second variant, on the
  same input, runs the second batch with limit 2.
\<close>

theorem processBatches_ignores_adjustment:
  "map_option (map_sum id calls_and_level)
     (processBatches quiet one_throttled (concurrency new_MegaverseBuilder) new_MegaverseBuilder)
     = Some (Inr ([(20, 3), (1, 3)], 2))
   \<and> map_option (map_sum id calls_and_level)
     (processBatches2 quiet one_throttled new_MegaverseBuilder2)
     = Some (Inr ([(20, 3), (1, 2)], 2))"
proof -
  have c: "chunks 20 one_throttled =
      [Throws (Error_object error_429) # replicate 19 (Resolves ()), [Resolves ()]]"
    by (simp add: one_throttled_def chunks.simps [of 20] chunks.simps [of _ "[]"])
  have f0: "failedWith429 (replicate n (Some (Fulfilled ()))) = Inr 0" for n
    by (induction n) simp_all
  have r0: "rateErrors (replicate n (Some (Fulfilled ()))) = 0" for n
    by (induction n) simp_all
  have m: "str_includes ''createPolyanet failed (429): Too Many Requests'' ''429''"
    by simp
  have e: "message error_429 = Some ''createPolyanet failed (429): Too Many Requests''"
    by (simp add: error_429_def)
  have q: "during_batch quiet = (\<lambda>_. [])" "during_pause quiet = (\<lambda>_. [])"
    by (simp_all add: quiet_def)
  have b: "batchSize new_MegaverseBuilder = 20" "concurrency new_MegaverseBuilder = 3"
    "batchSize new_MegaverseBuilder2 = 20" "concurrency new_MegaverseBuilder2 = 3"
    by (simp_all add: new_MegaverseBuilder_def new_MegaverseBuilder2_def)
  have ne: "one_throttled \<noteq> []" by (simp add: one_throttled_def)
  have n1: "no_nullish (Throws (Error_object error_429) # replicate 19 (Resolves ()))"
    and n2: "no_nullish [Resolves ()]"
    by (simp_all add: no_nullish_def list_all_iff)
  have p1: "await_pool quiet i (Throws (Error_object error_429) # replicate 19 (Resolves ())) 3
      = Some (Inr (Some (Rejected (Error_object error_429)) # replicate 19 (Some (Fulfilled ()))))"
    for i
    using await_pool_quiet [OF _ _ n1, of 3 i] by (simp add: settle_def)
  have p2: "await_pool quiet i [Resolves ()] l = Some (Inr [Some (Fulfilled ())])"
    if "1 \<le> l" "l < 2 ^ 32" for i l
    using await_pool_quiet [OF that n2, of i] by (simp add: settle_def)
  have v1: "map_option (map_sum id calls_and_level)
     (processBatches quiet one_throttled (concurrency new_MegaverseBuilder) new_MegaverseBuilder)
     = Some (Inr ([(20, 3), (1, 3)], 2))"
    using m
    by (simp add: processBatches_def c b q p1 p2 f0 calls_and_level_def
        e adjustConcurrency_def Let_def new_MegaverseBuilder_def
        del: str_includes.simps)
  have d: "take 20 one_throttled = Throws (Error_object error_429) # replicate 19 (Resolves ())"
    "drop 20 one_throttled = [Resolves ()]"
    by (simp_all add: one_throttled_def)
  have v2: "map_option (map_sum id calls_and_level)
     (processBatches2 quiet one_throttled new_MegaverseBuilder2)
     = Some (Inr ([(20, 3), (1, 2)], 2))"
    using m
    apply (simp add: processBatches2_def b ne)
    apply (subst processBatches2_loop.simps)
    apply (simp add: d ne q p1 r0 e Let_def
        new_MegaverseBuilder2_def adjustConcurrency2_def del: str_includes.simps)
    apply (subst processBatches2_loop.simps)
    apply (simp add: q p2 Let_def)
    apply (subst processBatches2_loop.simps)
    apply (simp add: calls_and_level_def)
    done
  show ?thesis using v1 v2 by simp
qed

end
